theory Spec2Isabelle
  imports Main "HOL-Library.Sublist" "HOL-Library.AList" "HOL-Library.Multiset"
begin

section \<open>Python values used by \<open>pypub/builder.py\<close>\<close>

text \<open>
  Exceptions are values. \<open>RuntimeError\<close> is the exception the builder raises itself
  (the spec calls it StateError); the \<open>OSError\<close> subclasses come from the file-system
  calls; \<open>Raised\<close> stands for any exception of an external collaborator (the chapter
  factory's conversion error, a template error).
\<close>

datatype pyerror =
    RuntimeError string
  | FileExistsError
  | FileNotFoundError
  | NotADirectoryError
  | IsADirectoryError
  | SameFileError
  | OSError
  | IndexError
  | ValueError
  | TemplateNotFound string
  | Raised string

subsection \<open>\<open>str\<close> methods\<close>

text \<open>\<open>s.find(sep)\<close> and \<open>s.rfind(sep)\<close>: first and last index at which \<open>sep\<close> occurs.\<close>

fun str_find :: "string \<Rightarrow> string \<Rightarrow> nat option" where
  "str_find [] sep = (if sep = [] then Some 0 else None)"
| "str_find (c # cs) sep =
     (if prefix sep (c # cs) then Some 0 else map_option Suc (str_find cs sep))"

fun str_rfind :: "string \<Rightarrow> string \<Rightarrow> nat option" where
  "str_rfind [] sep = (if sep = [] then Some 0 else None)"
| "str_rfind (c # cs) sep =
     (case str_rfind cs sep of
        Some i \<Rightarrow> Some (Suc i)
      | None \<Rightarrow> if prefix sep (c # cs) then Some 0 else None)"

text \<open>\<open>s.rsplit(sep, 1)\<close>: split once, at the last occurrence of \<open>sep\<close>.\<close>

definition rsplit1 :: "string \<Rightarrow> string \<Rightarrow> string list" where
  "rsplit1 s sep =
     (case str_rfind s sep of
        None \<Rightarrow> [s]
      | Some i \<Rightarrow> [take i s, drop (i + length sep) s])"

text \<open>\<open>s.split(sep, 1)\<close>: split once, at the first occurrence; an empty separator raises.\<close>

definition split1 :: "string \<Rightarrow> string \<Rightarrow> pyerror + string list" where
  "split1 s sep =
     (if sep = [] then Inl ValueError
      else case str_find s sep of
        None \<Rightarrow> Inr [s]
      | Some i \<Rightarrow> Inr [take i s, drop (i + length sep) s])"

text \<open>\<open>xs[i]\<close> for a non-negative index.\<close>

definition py_index :: "'a list \<Rightarrow> nat \<Rightarrow> pyerror + 'a" where
  "py_index xs i = (if i < length xs then Inr (xs ! i) else Inl IndexError)"

text \<open>\<open>s.split('/')\<close>: all the fields between separators (at least one field).\<close>

fun split_char :: "char \<Rightarrow> string \<Rightarrow> string list" where
  "split_char sep [] = [[]]"
| "split_char sep (c # cs) =
     (if c = sep then [] # split_char sep cs
      else case split_char sep cs of
        x # xs \<Rightarrow> (c # x) # xs
      | [] \<Rightarrow> [[c]])"

subsection \<open>\<open>os.path\<close> (posixpath)\<close>

definition os_path_join :: "string \<Rightarrow> string \<Rightarrow> string" where
  "os_path_join a b =
     (if prefix ''/'' b then b
      else if a = [] \<or> suffix ''/'' a then a @ b
      else a @ ''/'' @ b)"

definition os_path_basename :: "string \<Rightarrow> string" where
  "os_path_basename p =
     (case str_rfind p ''/'' of None \<Rightarrow> p | Some i \<Rightarrow> drop (i + 1) p)"

definition rstrip_slash :: "string \<Rightarrow> string" where
  "rstrip_slash s = rev (dropWhile (\<lambda>c. c = CHR ''/'') (rev s))"

definition os_path_dirname :: "string \<Rightarrow> string" where
  "os_path_dirname p =
     (let head = (case str_rfind p ''/'' of None \<Rightarrow> [] | Some i \<Rightarrow> take (i + 1) p)
      in if head \<noteq> [] \<and> head \<noteq> replicate (length head) CHR ''/''
         then rstrip_slash head else head)"

text \<open>
  \<open>os.path.normpath\<close>: drops empty and \<open>.\<close> components and folds \<open>..\<close> lexically;
  exactly two leading slashes are kept, as POSIX allows.
\<close>

fun normpath_comps :: "nat \<Rightarrow> string list \<Rightarrow> string list \<Rightarrow> string list" where
  "normpath_comps initial_slashes new_comps [] = new_comps"
| "normpath_comps initial_slashes new_comps (c # comps) =
     (if c = [] \<or> c = ''.'' then normpath_comps initial_slashes new_comps comps
      else if c \<noteq> ''..'' \<or> (initial_slashes = 0 \<and> new_comps = [])
                \<or> (new_comps \<noteq> [] \<and> last new_comps = ''..'')
        then normpath_comps initial_slashes (new_comps @ [c]) comps
      else if new_comps \<noteq> [] then normpath_comps initial_slashes (butlast new_comps) comps
      else normpath_comps initial_slashes new_comps comps)"

fun str_join :: "string \<Rightarrow> string list \<Rightarrow> string" where
  "str_join sep [] = []"
| "str_join sep [x] = x"
| "str_join sep (x # y # ys) = x @ sep @ str_join sep (y # ys)"

definition os_path_normpath :: "string \<Rightarrow> string" where
  "os_path_normpath path =
     (if path = [] then ''.''
      else
        let initial_slashes =
              (if prefix ''/'' path
               then (if prefix ''//'' path \<and> \<not> prefix ''///'' path then 2 else 1)
               else 0);
            comps = normpath_comps initial_slashes [] (split_char CHR ''/'' path);
            path' = replicate initial_slashes CHR ''/'' @ str_join ''/'' comps
        in if path' = [] then ''.'' else path')"

section \<open>The file system\<close>

text \<open>
  Regular files hold bytes or a zip archive (its members in the order they were written,
  each with its name, its compression method and its content). A directory holds its
  entries, kept here in the order of their creation. Symbolic links, permissions and
  text encodings are not modelled.

  Two things are the file system's choice and not the program's; they are fields of the
  world, so that every statement below holds for each choice:
  \<^item> the order in which \<open>os.listdir\<close> and \<open>os.scandir\<close> return the entries of a
    directory (\<open>listing_order\<close>, any rearrangement of the entries);
  \<^item> what copying an archive that is being written into itself comes to
    (\<open>self_copy\<close>, see \<open>zip_write\<close> below).
\<close>

datatype zip_method = ZIP_STORED | ZIP_DEFLATED

datatype content = Data string | Archive "(string \<times> zip_method \<times> content) list"

datatype node = File content | Dir "(string \<times> node) list"

record world =
  root :: node
  cwd :: "string list"
  tmpnames :: "string list"
  listing_order :: "(string \<times> node) list \<Rightarrow> (string \<times> node) list"
  self_copy :: "(string \<times> zip_method \<times> content) list \<Rightarrow> content option"

text \<open>
  A path string names the list of components from the root. Relative paths start at the
  working directory; empty and \<open>.\<close> components are skipped and \<open>..\<close> steps back
  (lexically: there are no symbolic links).
\<close>

fun norm_comps :: "string list \<Rightarrow> string list \<Rightarrow> string list" where
  "norm_comps acc [] = acc"
| "norm_comps acc (c # cs) =
     (if c = [] \<or> c = ''.'' then norm_comps acc cs
      else if c = ''..'' then norm_comps (butlast acc) cs
      else norm_comps (acc @ [c]) cs)"

definition locate :: "world \<Rightarrow> string \<Rightarrow> string list" where
  "locate w p = norm_comps (if prefix ''/'' p then [] else cwd w) (split_char CHR ''/'' p)"

fun lookup :: "node \<Rightarrow> string list \<Rightarrow> node option" where
  "lookup n [] = Some n"
| "lookup (File _) (c # cs) = None"
| "lookup (Dir es) (c # cs) = (case map_of es c of None \<Rightarrow> None | Some n \<Rightarrow> lookup n cs)"

text \<open>Create or truncate the regular file at a path (\<open>open(path, 'w')\<close> and a write).\<close>

fun write_node :: "node \<Rightarrow> string list \<Rightarrow> content \<Rightarrow> pyerror + node" where
  "write_node (File _) [] d = Inr (File d)"
| "write_node (Dir _) [] d = Inl IsADirectoryError"
| "write_node (File _) (c # cs) d = Inl NotADirectoryError"
| "write_node (Dir es) (c # cs) d =
     (case map_of es c of
        None \<Rightarrow> if cs = [] then Inr (Dir (es @ [(c, File d)])) else Inl FileNotFoundError
      | Some n \<Rightarrow>
          (case write_node n cs d of
             Inl e \<Rightarrow> Inl e
           | Inr n' \<Rightarrow> Inr (Dir (AList.update c n' es))))"

text \<open>
  \<open>os.mkdir\<close> (\<open>parents = False\<close>) and \<open>os.makedirs\<close> (\<open>parents = True\<close>, which
  creates the missing ancestors): the directory itself must not exist yet.
\<close>

fun fresh_dirs :: "string list \<Rightarrow> node" where
  "fresh_dirs [] = Dir []"
| "fresh_dirs (c # cs) = Dir [(c, fresh_dirs cs)]"

fun mkdir_node :: "bool \<Rightarrow> node \<Rightarrow> string list \<Rightarrow> pyerror + node" where
  "mkdir_node parents n [] = Inl FileExistsError"
| "mkdir_node parents (File _) (c # cs) = Inl NotADirectoryError"
| "mkdir_node parents (Dir es) (c # cs) =
     (case map_of es c of
        None \<Rightarrow>
          if cs = [] \<or> parents then Inr (Dir (es @ [(c, fresh_dirs cs)]))
          else Inl FileNotFoundError
      | Some n \<Rightarrow>
          (case mkdir_node parents n cs of
             Inl e \<Rightarrow> Inl e
           | Inr n' \<Rightarrow> Inr (Dir (AList.update c n' es))))"

text \<open>Unlink the entry at a path, with everything below it; empty the directory at a path.\<close>

fun remove_node :: "node \<Rightarrow> string list \<Rightarrow> node" where
  "remove_node n [] = n"
| "remove_node (File d) (c # cs) = File d"
| "remove_node (Dir es) [c] = Dir (AList.delete c es)"
| "remove_node (Dir es) (c # c' # cs) =
     (case map_of es c of
        None \<Rightarrow> Dir es
      | Some n \<Rightarrow> Dir (AList.update c (remove_node n (c' # cs)) es))"

fun clear_node :: "node \<Rightarrow> string list \<Rightarrow> node" where
  "clear_node (File d) cs = File d"
| "clear_node (Dir es) [] = Dir []"
| "clear_node (Dir es) (c # cs) =
     (case map_of es c of
        None \<Rightarrow> Dir es
      | Some n \<Rightarrow> Dir (AList.update c (clear_node n cs) es))"

definition resolve :: "world \<Rightarrow> string \<Rightarrow> pyerror + string list" where
  "resolve w p = (if p = [] then Inl FileNotFoundError else Inr (locate w p))"

definition os_mkdir :: "world \<Rightarrow> string \<Rightarrow> pyerror + world" where
  "os_mkdir w p =
     (case resolve w p of
        Inl e \<Rightarrow> Inl e
      | Inr q \<Rightarrow>
          (case mkdir_node False (root w) q of
             Inl e \<Rightarrow> Inl e
           | Inr r \<Rightarrow> Inr (w\<lparr>root := r\<rparr>)))"

definition os_makedirs :: "world \<Rightarrow> string \<Rightarrow> pyerror + world" where
  "os_makedirs w p =
     (case resolve w p of
        Inl e \<Rightarrow> Inl e
      | Inr q \<Rightarrow>
          (case mkdir_node True (root w) q of
             Inl e \<Rightarrow> Inl e
           | Inr r \<Rightarrow> Inr (w\<lparr>root := r\<rparr>)))"

text \<open>
  \<open>tempfile.mkdtemp()\<close> tries candidate names until \<open>os.mkdir\<close> succeeds on one; an
  existing name is skipped, any other error is raised, and running out of candidates
  raises \<open>FileExistsError\<close>. The field \<open>tmpnames\<close> is the sequence of (absolute) paths
  the name generator will propose.
\<close>

fun mkdtemp_try :: "world \<Rightarrow> string list \<Rightarrow> (pyerror + string) \<times> world" where
  "mkdtemp_try w [] = (Inl FileExistsError, w\<lparr>tmpnames := []\<rparr>)"
| "mkdtemp_try w (name # names) =
     (case os_mkdir w name of
        Inr w' \<Rightarrow> (Inr name, w'\<lparr>tmpnames := names\<rparr>)
      | Inl FileExistsError \<Rightarrow> mkdtemp_try w names
      | Inl e \<Rightarrow> (Inl e, w\<lparr>tmpnames := names\<rparr>))"

definition tempfile_mkdtemp :: "world \<Rightarrow> (pyerror + string) \<times> world" where
  "tempfile_mkdtemp w = mkdtemp_try w (tmpnames w)"

text \<open>Reading a regular file (\<open>open(path, 'rb').read()\<close>).\<close>

definition read_file :: "world \<Rightarrow> string \<Rightarrow> pyerror + content" where
  "read_file w p =
     (case resolve w p of
        Inl e \<Rightarrow> Inl e
      | Inr q \<Rightarrow>
          (case lookup (root w) q of
             None \<Rightarrow> Inl FileNotFoundError
           | Some (Dir _) \<Rightarrow> Inl IsADirectoryError
           | Some (File d) \<Rightarrow> Inr d))"

definition write_file :: "world \<Rightarrow> string \<Rightarrow> content \<Rightarrow> pyerror + world" where
  "write_file w p d =
     (case resolve w p of
        Inl e \<Rightarrow> Inl e
      | Inr q \<Rightarrow>
          (case write_node (root w) q d of
             Inl e \<Rightarrow> Inl e
           | Inr r \<Rightarrow> Inr (w\<lparr>root := r\<rparr>)))"

text \<open>
  \<open>shutil.copyfile(src, dst)\<close>: refuses to copy a file onto itself, then reads the
  source and writes the destination.
\<close>

definition shutil_copyfile :: "world \<Rightarrow> string \<Rightarrow> string \<Rightarrow> pyerror + world" where
  "shutil_copyfile w src dst =
     (if src \<noteq> [] \<and> dst \<noteq> [] \<and> locate w src = locate w dst
         \<and> lookup (root w) (locate w src) \<noteq> None
      then Inl SameFileError
      else case read_file w src of
        Inl e \<Rightarrow> Inl e
      | Inr d \<Rightarrow> write_file w dst d)"

text \<open>
  The entries of a directory as a scan returns them: in the file system's order, which
  rearranges the entries and neither drops nor invents one.
\<close>

definition scandir :: "world \<Rightarrow> (string \<times> node) list \<Rightarrow> (string \<times> node) list" where
  "scandir w es = (let xs = listing_order w es in if mset xs = mset es then xs else es)"

definition os_listdir :: "world \<Rightarrow> string \<Rightarrow> pyerror + string list" where
  "os_listdir w p =
     (case resolve w p of
        Inl e \<Rightarrow> Inl e
      | Inr q \<Rightarrow>
          (case lookup (root w) q of
             None \<Rightarrow> Inl FileNotFoundError
           | Some (File _) \<Rightarrow> Inl NotADirectoryError
           | Some (Dir es) \<Rightarrow> Inr (map fst (scandir w es))))"

text \<open>
  \<open>os.walk(top)\<close>, top-down: one triple (directory path, subdirectory names, file names)
  per directory, a directory before its subdirectories, each subdirectory path built with
  \<open>os.path.join\<close>. Errors of the scan are ignored (\<open>onerror=None\<close>), so a missing
  \<open>top\<close> yields nothing.
\<close>

fun is_dir :: "node \<Rightarrow> bool" where
  "is_dir (Dir _) = True"
| "is_dir (File _) = False"

function walk_node ::
  "world \<Rightarrow> string \<Rightarrow> node \<Rightarrow> (string \<times> string list \<times> string list) list" where
  "walk_node w dirpath (File _) = []"
| "walk_node w dirpath (Dir es) =
     (dirpath, map fst (filter (\<lambda>e. is_dir (snd e)) (scandir w es)),
           map fst (filter (\<lambda>e. \<not> is_dir (snd e)) (scandir w es)))
     # concat (map (\<lambda>e. walk_node w (os_path_join dirpath (fst e)) (snd e)) (scandir w es))"
  by pat_completeness auto

termination
proof (relation "measure (\<lambda>(w, dirpath, n). size n)")
  show "wf (measure (\<lambda>(w, dirpath, n). size n))" by simp
next
  fix w :: world and dirpath :: string and es :: "(string \<times> node) list" and e
  assume "e \<in> set (scandir w es)"
  then have "e \<in> set es"
    by (auto simp: scandir_def Let_def split: if_splits dest: mset_eq_setD)
  then have "size (snd e) < size (Dir es)"
    by (induction es) auto
  then show "((w, os_path_join dirpath (fst e), snd e), (w, dirpath, Dir es))
               \<in> measure (\<lambda>(w, dirpath, n). size n)"
    by simp
qed

definition os_walk :: "world \<Rightarrow> string \<Rightarrow> (string \<times> string list \<times> string list) list" where
  "os_walk w dirpath =
     (case resolve w dirpath of
        Inl e \<Rightarrow> []
      | Inr q \<Rightarrow> (case lookup (root w) q of None \<Rightarrow> [] | Some n \<Rightarrow> walk_node w dirpath n))"

text \<open>
  \<open>os.rename(src, dst)\<close> of a regular file: replaces a regular file at \<open>dst\<close>, fails
  on a directory there. Renaming a directory is not needed by the builder and is refused.
\<close>

definition os_rename :: "world \<Rightarrow> string \<Rightarrow> string \<Rightarrow> pyerror + world" where
  "os_rename w src dst =
     (if src = [] \<or> dst = [] then Inl FileNotFoundError
      else case lookup (root w) (locate w src) of
        None \<Rightarrow> Inl FileNotFoundError
      | Some (Dir _) \<Rightarrow> Inl OSError
      | Some (File d) \<Rightarrow>
          if locate w src = locate w dst then Inr w
          else (case write_node (remove_node (root w) (locate w src)) (locate w dst) d of
                  Inl e \<Rightarrow> Inl e
                | Inr r \<Rightarrow> Inr (w\<lparr>root := r\<rparr>)))"

text \<open>
  \<open>os.rmdir(path)\<close> refuses a path whose last component is \<open>.\<close> (\<open>EINVAL\<close>) or
  \<open>..\<close> (\<open>ENOTEMPTY\<close>), whatever the directory holds, and it refuses the root.
\<close>

definition rmdir_refused :: "world \<Rightarrow> string \<Rightarrow> bool" where
  "rmdir_refused w p =
     (let cs = filter (\<lambda>c. c \<noteq> []) (split_char CHR ''/'' p)
      in locate w p = [] \<or> (cs \<noteq> [] \<and> (last cs = ''.'' \<or> last cs = ''..'')))"

text \<open>
  \<open>shutil.rmtree(path, ignore_errors=True)\<close>: removes all that is below the directory,
  then the directory itself with \<open>os.rmdir(path)\<close>; where that is refused the error is
  ignored and the directory stays, emptied. Nothing happens, and nothing is raised, when
  the path is missing or is not a directory.
\<close>

definition shutil_rmtree_ignore_errors :: "world \<Rightarrow> string \<Rightarrow> world" where
  "shutil_rmtree_ignore_errors w p =
     (if p = [] then w
      else case lookup (root w) (locate w p) of
        Some (Dir _) \<Rightarrow>
          (if rmdir_refused w p then w\<lparr>root := clear_node (root w) (locate w p)\<rparr>
           else w\<lparr>root := remove_node (root w) (locate w p)\<rparr>)
      | _ \<Rightarrow> w)"


subsection \<open>\<open>zipfile.ZipFile\<close>\<close>

text \<open>
  An archive opened for writing: the file is created (or truncated) when the object is
  constructed, \<open>write\<close> appends one member, \<open>close\<close> completes the file. The object
  holds the members written so far; the file has all of them once \<open>close\<close> has returned.
  Between the two, only a part of what has been written has reached the file; the one
  reader of the file in that interval is \<open>write\<close>, when it is asked to add the archive's
  own file.
\<close>

record zip_file =
  filename :: string
  compression :: zip_method
  members :: "(string \<times> zip_method \<times> content) list"

definition ZipFile :: "world \<Rightarrow> string \<Rightarrow> zip_method \<Rightarrow> pyerror + zip_file \<times> world" where
  "ZipFile w file method =
     (case write_file w file (Archive []) of
        Inl e \<Rightarrow> Inl e
      | Inr w' \<Rightarrow> Inr (\<lparr>filename = file, compression = method, members = []\<rparr>, w'))"

text \<open>
  \<open>ZipInfo.from_file\<close> names the member: the archive name is normalised and its leading
  slashes are removed (an archive name left empty raises \<open>IndexError\<close>).
\<close>

definition zip_arcname :: "string \<Rightarrow> pyerror + string" where
  "zip_arcname arcname =
     (let a = dropWhile (\<lambda>c. c = CHR ''/'') (os_path_normpath arcname)
      in if a = [] then Inl IndexError else Inr a)"

text \<open>
  \<open>zipf.write(filename, arcname, compress_type)\<close>: a regular file becomes a member with
  the given method, or the archive's own when the method is \<open>None\<close>; a directory becomes
  an empty stored member whose name ends with a slash.

  When the file to add is the archive's own file, \<open>write\<close> copies the bytes that have
  reached the file so far, while its own output goes to the same file. With little
  written, the output stays in the buffer, the copy reaches the end of the file and the
  member holds those bytes. Once the output is flushed while the copy runs, the copy
  reads what it has just written and only ends when the file cannot grow any more, with
  \<open>OSError\<close>. Which of the two happens, and which bytes are copied, depends on the
  buffer and on the sizes of what was written: \<open>self_copy\<close> of the world, applied to the
  members written so far, is the copied content, or \<open>None\<close> for the copy that does not
  end by itself.
\<close>

definition zip_write ::
  "zip_file \<Rightarrow> world \<Rightarrow> string \<Rightarrow> string \<Rightarrow> zip_method option \<Rightarrow> pyerror + zip_file" where
  "zip_write zipf w file arcname compress_type =
     (case resolve w file of
        Inl e \<Rightarrow> Inl e
      | Inr q \<Rightarrow>
          (case lookup (root w) q of
             None \<Rightarrow> Inl FileNotFoundError
           | Some n \<Rightarrow>
               (case zip_arcname arcname of
                  Inl e \<Rightarrow> Inl e
                | Inr a \<Rightarrow>
                    (case n of
                       Dir _ \<Rightarrow>
                         Inr (zipf\<lparr>members := members zipf @ [(a @ ''/'', ZIP_STORED, Data [])]\<rparr>)
                     | File d \<Rightarrow>
                         (case (if q = locate w (filename zipf) then self_copy w (members zipf)
                                else Some d) of
                            None \<Rightarrow> Inl OSError
                          | Some d' \<Rightarrow>
                              Inr (zipf\<lparr>members := members zipf @
                                     [(a, case compress_type of
                                            None \<Rightarrow> compression zipf
                                          | Some m \<Rightarrow> m, d')]\<rparr>))))))"

definition zip_close :: "zip_file \<Rightarrow> world \<Rightarrow> pyerror + world" where
  "zip_close zipf w = write_file w (filename zipf) (Archive (members zipf))"

section \<open>\<open>pypub/builder.py\<close>: data\<close>

record assignment =
  assign_id :: string
  link :: string
  play_order :: int

record epub_dirs =
  basedir :: string
  oebps :: string
  metainf :: string
  images :: string
  styles :: string

datatype mime_file = MimeFile (mime_name: string) (mime: string)

text \<open>
  Modelled from the spec: the class \<open>Chapter\<close> is imported from \<open>pypub/chapter.py\<close>,
  which is not part of the sources at hand. The spec's Page is "a title and body content";
  the builder itself only reads the title (for the log line).
\<close>

record Chapter =
  chapter_title :: string
  chapter_content :: string

text \<open>
  \<open>EpubSpec\<close>. Its \<open>factory\<close> and \<open>logger\<close> fields are objects, not data;
  \<open>EpubBuilder.__init__\<close> copies them into the builder, where the model keeps the
  factory. The log sink has no effect that the builder can observe and is left out.
\<close>

record epub_spec =
  title :: string
  creator :: string
  subtitle :: string
  language :: string
  rights :: string
  publisher :: string
  spec_encoding :: string
  date :: nat
  epub_dir :: "string option"
  css_paths :: "string list"

text \<open>The keyword dictionaries handed to templates, in the order of the dict literal.\<close>

datatype pyvalue =
    VStr string
  | VEpub epub_spec
  | VNames "string list"
  | VChapters "(assignment \<times> Chapter) list"
  | VImages "mime_file list"
  | VChapter Chapter

type_synonym kwargs = "(string \<times> pyvalue) list"

text \<open>
  External collaborators. A jinja2 template is its \<open>render\<close> method; the environment
  maps a template name to a template, if it finds one. The chapter factory's \<open>render\<close>
  receives the chapter, the image directory, the page template and the keyword
  dictionary; it returns the page's bytes or raises, and may write to the file system
  (it copies the images a page refers to).
\<close>

type_synonym template = "kwargs \<Rightarrow> pyerror + string"

type_synonym chapter_factory =
  "Chapter \<Rightarrow> string \<Rightarrow> template \<Rightarrow> kwargs \<Rightarrow> world \<Rightarrow> (pyerror + string) \<times> world"

text \<open>The module's globals: the package directory and the jinja2 environment.\<close>

record globals =
  BASE :: string
  jinja_env :: "string \<Rightarrow> template option"

definition STATIC :: "globals \<Rightarrow> string" where
  "STATIC g = os_path_join (BASE g) ''static/''"

definition TEMPLATES :: "globals \<Rightarrow> string" where
  "TEMPLATES g = os_path_join (BASE g) ''templates/''"

definition get_template :: "globals \<Rightarrow> string \<Rightarrow> pyerror + template" where
  "get_template g name =
     (case jinja_env g name of None \<Rightarrow> Inl (TemplateNotFound name) | Some t \<Rightarrow> Inr t)"

record builder =
  uid :: string
  epub :: epub_spec
  factory :: chapter_factory
  encoding :: string
  dirs :: "epub_dirs option"
  template :: "template option"
  chapters :: "(assignment \<times> Chapter) list"

section \<open>\<open>pypub/builder.py\<close>: functions\<close>

definition epub_dirs :: "string option \<Rightarrow> world \<Rightarrow> (pyerror + epub_dirs) \<times> world" where
  "epub_dirs basedir_arg w =
     (case (case basedir_arg of
              Some (c # cs) \<Rightarrow> (Inr (c # cs), w)
            | _ \<Rightarrow> tempfile_mkdtemp w) of
        (Inl e, w0) \<Rightarrow> (Inl e, w0)
      | (Inr bd, w0) \<Rightarrow>
          (let oe = os_path_join bd ''OEBPS'';
               mi = os_path_join bd ''META-INF'';
               im = os_path_join oe ''images'';
               st = os_path_join oe ''styles''
           in case os_makedirs w0 oe of Inl e \<Rightarrow> (Inl e, w0) | Inr w1 \<Rightarrow>
             (case os_makedirs w1 mi of Inl e \<Rightarrow> (Inl e, w1) | Inr w2 \<Rightarrow>
             (case os_makedirs w2 im of Inl e \<Rightarrow> (Inl e, w2) | Inr w3 \<Rightarrow>
             (case os_makedirs w3 st of Inl e \<Rightarrow> (Inl e, w3) | Inr w4 \<Rightarrow>
                (Inr \<lparr>basedir = bd, oebps = oe, metainf = mi, images = im, styles = st\<rparr>,
                 w4))))))"

definition copy_file :: "string \<Rightarrow> string \<Rightarrow> world \<Rightarrow> pyerror + world" where
  "copy_file src into w =
     (let fname = os_path_basename src;
          dst = os_path_join into fname
      in shutil_copyfile w src dst)"

definition copy_static :: "globals \<Rightarrow> string \<Rightarrow> string \<Rightarrow> world \<Rightarrow> pyerror + world" where
  "copy_static g fpath into w =
     (let src = os_path_join (STATIC g) fpath in copy_file src into w)"

definition get_extension :: "string \<Rightarrow> string" where
  "get_extension fname = last (rsplit1 fname ''.'')"

definition render_template ::
  "globals \<Rightarrow> string \<Rightarrow> string \<Rightarrow> string \<Rightarrow> kwargs \<Rightarrow> world \<Rightarrow> pyerror + world" where
  "render_template g name into enc kw w =
     (let fname = hd (rsplit1 name ''.j2'');
          dest = os_path_join into (os_path_basename fname)
      in case get_template g name of
           Inl e \<Rightarrow> Inl e
         | Inr t \<Rightarrow>
             (case t kw of
                Inl e \<Rightarrow> Inl e
              | Inr content \<Rightarrow> write_file w dest (Data content)))"

subsection \<open>\<open>EpubBuilder\<close>\<close>

text \<open>
  A method takes the object and the world and returns its result (or the exception it
  raised) with the object and the world as the call left them. \<open>uuid.uuid4()\<close> is the
  argument \<open>u\<close> of the constructor.
\<close>

definition init :: "epub_spec \<Rightarrow> chapter_factory \<Rightarrow> string \<Rightarrow> builder" where
  "init e f u =
     \<lparr>uid = u, epub = e, factory = f, encoding = spec_encoding e,
      dirs = None, template = None, chapters = []\<rparr>"

text \<open>The loop \<open>for path in self.epub.css_paths: copy_file(path, self.dirs.styles)\<close>.\<close>

fun copy_css :: "string list \<Rightarrow> string \<Rightarrow> world \<Rightarrow> (pyerror + unit) \<times> world" where
  "copy_css [] into w = (Inr (), w)"
| "copy_css (path # paths) into w =
     (case copy_file path into w of
        Inl e \<Rightarrow> (Inl e, w)
      | Inr w' \<Rightarrow> copy_css paths into w')"

definition begin_build ::
  "globals \<Rightarrow> builder \<Rightarrow> world \<Rightarrow> (pyerror + epub_dirs) \<times> builder \<times> world" where
  "begin_build g self w =
     (case (case template self of
              None \<Rightarrow> get_template g ''page.xhtml.j2''
            | Some t \<Rightarrow> Inr t) of
        Inl e \<Rightarrow> (Inl e, self, w)
      | Inr t \<Rightarrow>
          (let self1 = self\<lparr>template := Some t\<rparr> in
           case dirs self1 of
             Some d \<Rightarrow> (Inr d, self1, w)
           | None \<Rightarrow>
               (case epub_dirs (epub_dir (epub self1)) w of
                  (Inl e, w0) \<Rightarrow> (Inl e, self1, w0)
                | (Inr d, w0) \<Rightarrow>
                    (let self2 = self1\<lparr>dirs := Some d\<rparr> in
                     case copy_static g ''mimetype'' (basedir d) w0 of
                       Inl e \<Rightarrow> (Inl e, self2, w0) | Inr w1 \<Rightarrow>
                    (case copy_static g ''container.xml'' (metainf d) w1 of
                       Inl e \<Rightarrow> (Inl e, self2, w1) | Inr w2 \<Rightarrow>
                    (case copy_static g ''css/coverpage.css'' (styles d) w2 of
                       Inl e \<Rightarrow> (Inl e, self2, w2) | Inr w3 \<Rightarrow>
                    (case copy_static g ''css/styles.css'' (styles d) w3 of
                       Inl e \<Rightarrow> (Inl e, self2, w3) | Inr w4 \<Rightarrow>
                    (case copy_css (css_paths (epub self2)) (styles d) w4 of
                       (Inl e, w5) \<Rightarrow> (Inl e, self2, w5) | (Inr _, w5) \<Rightarrow>
                    (let fpath = os_path_join (oebps d) ''coverpage.xhtml'' in
                     case os_listdir w5 (styles d) of
                       Inl e \<Rightarrow> (Inl e, self2, w5) | Inr names \<Rightarrow>
                    (let kw = [(''epub'', VEpub (epub self2)), (''styles'', VNames names)] in
                     case write_file w5 fpath (Data []) of
                       Inl e \<Rightarrow> (Inl e, self2, w5) | Inr w6 \<Rightarrow>
                    (case t kw of
                       Inl e \<Rightarrow> (Inl e, self2, w6) | Inr cover \<Rightarrow>
                    (case write_file w6 fpath (Data cover) of
                       Inl e \<Rightarrow> (Inl e, self2, w6)
                     | Inr w7 \<Rightarrow> (Inr d, self2, w7)))))))))))))"

definition render_chapter ::
  "builder \<Rightarrow> assignment \<Rightarrow> Chapter \<Rightarrow> world \<Rightarrow> (pyerror + unit) \<times> builder \<times> world" where
  "render_chapter self assign chap w =
     (case (dirs self, template self) of
        (Some d, Some t) \<Rightarrow>
          (let self1 = self\<lparr>chapters := chapters self @ [(assign, chap)]\<rparr>;
               kw = [(''epub'', VEpub (epub self1)), (''chapter'', VChapter chap)];
               fpath = os_path_join (oebps d) (link assign)
           in case factory self1 chap (images d) t kw w of
                (Inl e, w1) \<Rightarrow> (Inl e, self1, w1)
              | (Inr content, w1) \<Rightarrow>
                  (case write_file w1 fpath (Data content) of
                     Inl e \<Rightarrow> (Inl e, self1, w1)
                   | Inr w2 \<Rightarrow> (Inr (), self1, w2)))
      | _ \<Rightarrow> (Inl (RuntimeError ''cannot render_chapter before `begin`''), self, w))"

text \<open>The keyword dictionary that \<open>index\<close> builds for the two index templates.\<close>

definition index_kwargs :: "builder \<Rightarrow> epub_dirs \<Rightarrow> world \<Rightarrow> pyerror + kwargs" where
  "index_kwargs self d w =
     (case os_listdir w (styles d) of
        Inl e \<Rightarrow> Inl e
      | Inr style_names \<Rightarrow>
          (case os_listdir w (images d) of
             Inl e \<Rightarrow> Inl e
           | Inr image_names \<Rightarrow>
               Inr [(''uid'', VStr (uid self)),
                    (''epub'', VEpub (epub self)),
                    (''styles'', VNames style_names),
                    (''chapters'', VChapters (chapters self)),
                    (''images'', VImages (map (\<lambda>fname. MimeFile fname (get_extension fname))
                                           image_names))]))"

definition index :: "globals \<Rightarrow> builder \<Rightarrow> world \<Rightarrow> (pyerror + unit) \<times> builder \<times> world" where
  "index g self w =
     (case dirs self of
        None \<Rightarrow> (Inl (RuntimeError ''cannot index epub before `begin`''), self, w)
      | Some d \<Rightarrow>
          (case index_kwargs self d w of
             Inl e \<Rightarrow> (Inl e, self, w)
           | Inr kw \<Rightarrow>
               (case render_template g ''book.ncx.j2'' (oebps d) (encoding self) kw w of
                  Inl e \<Rightarrow> (Inl e, self, w)
                | Inr w1 \<Rightarrow>
                    (case render_template g ''book.opf.j2'' (oebps d) (encoding self) kw w1 of
                       Inl e \<Rightarrow> (Inl e, self, w1)
                     | Inr w2 \<Rightarrow> (Inr (), self, w2)))))"


text \<open>
  The file name of the archive, and the name under which it is written first:
  the first five assignments of \<open>compress\<close>.
\<close>

definition archive_paths :: "epub_spec \<Rightarrow> string option \<Rightarrow> string \<times> string" where
  "archive_paths e fpath_arg =
     (let fname = (case fpath_arg of
                     Some (c # cs) \<Rightarrow> os_path_basename (c # cs)
                   | _ \<Rightarrow> title e);
          fname' = hd (rsplit1 fname ''.epub'') @ ''.epub'';
          dir = (case fpath_arg of
                   Some (c # cs) \<Rightarrow> os_path_dirname (c # cs)
                 | _ \<Rightarrow> ''.'');
          fpath = os_path_join dir fname';
          fzip = hd (rsplit1 fpath ''.epub'') @ ''.zip''
      in (fpath, fzip))"

text \<open>The inner loop of \<open>compress\<close>, over the files of one directory.\<close>

fun compress_files ::
  "zip_file \<Rightarrow> world \<Rightarrow> string \<Rightarrow> string \<Rightarrow> string list \<Rightarrow> (pyerror + unit) \<times> zip_file" where
  "compress_files zipf w dirpath relpath [] = (Inr (), zipf)"
| "compress_files zipf w dirpath relpath (file # files) =
     (let real = os_path_join dirpath file;
          local = os_path_join relpath file;
          method = (if file = ''mimetype'' then Some ZIP_STORED else None)
      in case zip_write zipf w real local method of
           Inl e \<Rightarrow> (Inl e, zipf)
         | Inr zipf' \<Rightarrow> compress_files zipf' w dirpath relpath files)"

text \<open>The outer loop of \<open>compress\<close>, over the triples of \<open>os.walk\<close>.\<close>

fun compress_walk ::
  "zip_file \<Rightarrow> world \<Rightarrow> string \<Rightarrow> (string \<times> string list \<times> string list) list \<Rightarrow>
     (pyerror + unit) \<times> zip_file" where
  "compress_walk zipf w base [] = (Inr (), zipf)"
| "compress_walk zipf w base ((dirpath, subdirs, files) # rest) =
     (case split1 dirpath base of
        Inl e \<Rightarrow> (Inl e, zipf)
      | Inr parts \<Rightarrow>
          (case py_index parts 1 of
             Inl e \<Rightarrow> (Inl e, zipf)
           | Inr relpath \<Rightarrow>
               (case compress_files zipf w dirpath relpath files of
                  (Inl e, zipf') \<Rightarrow> (Inl e, zipf')
                | (Inr _, zipf') \<Rightarrow> compress_walk zipf' w base rest)))"

text \<open>
  \<open>compress\<close>. When the loop raises, the archive object is dropped without an explicit
  \<open>close\<close>; what it had written stays in the temporary file.
\<close>

definition compress ::
  "builder \<Rightarrow> string option \<Rightarrow> world \<Rightarrow> (pyerror + string) \<times> builder \<times> world" where
  "compress self fpath_arg w =
     (case dirs self of
        None \<Rightarrow> (Inl (RuntimeError ''cannot finalize before `begin`''), self, w)
      | Some d \<Rightarrow>
          (case archive_paths (epub self) fpath_arg of
             (fpath, fzip) \<Rightarrow>
               (case ZipFile w fzip ZIP_DEFLATED of
                  Inl e \<Rightarrow> (Inl e, self, w)
                | Inr (zipf, w1) \<Rightarrow>
                    (case compress_walk zipf w1 (basedir d) (os_walk w1 (basedir d)) of
                       (Inl e, zipf') \<Rightarrow>
                         (Inl e, self, case zip_close zipf' w1 of Inl _ \<Rightarrow> w1 | Inr w2 \<Rightarrow> w2)
                     | (Inr _, zipf') \<Rightarrow>
                         (case zip_close zipf' w1 of
                            Inl e \<Rightarrow> (Inl e, self, w1)
                          | Inr w2 \<Rightarrow>
                              (case os_rename w2 fzip fpath of
                                 Inl e \<Rightarrow> (Inl e, self, w2)
                               | Inr w3 \<Rightarrow> (Inr fpath, self, w3)))))))"

definition finalize ::
  "globals \<Rightarrow> builder \<Rightarrow> string option \<Rightarrow> world \<Rightarrow> (pyerror + string) \<times> builder \<times> world" where
  "finalize g self fpath_arg w =
     (case index g self w of
        (Inl e, self1, w1) \<Rightarrow> (Inl e, self1, w1)
      | (Inr _, self1, w1) \<Rightarrow> compress self1 fpath_arg w1)"

definition cleanup :: "builder \<Rightarrow> world \<Rightarrow> (pyerror + unit) \<times> builder \<times> world" where
  "cleanup self w =
     (case dirs self of
        Some d \<Rightarrow> (Inr (), self\<lparr>dirs := None\<rparr>, shutil_rmtree_ignore_errors w (basedir d))
      | None \<Rightarrow> (Inr (), self, w))"

text \<open>\<open>__enter__\<close> and \<open>__exit__\<close>.\<close>

definition enter :: "globals \<Rightarrow> builder \<Rightarrow> world \<Rightarrow> (pyerror + builder) \<times> builder \<times> world" where
  "enter g self w =
     (case begin_build g self w of
        (Inl e, self1, w1) \<Rightarrow> (Inl e, self1, w1)
      | (Inr _, self1, w1) \<Rightarrow> (Inr self1, self1, w1))"

definition exit :: "builder \<Rightarrow> world \<Rightarrow> (pyerror + unit) \<times> builder \<times> world" where
  "exit self w = cleanup self w"

section \<open>Callers\<close>

text \<open>
  The statement \<open>with builder as b: body\<close>. Python calls \<open>__enter__\<close>; when that raises,
  the exception propagates and \<open>__exit__\<close> is not called. Otherwise the body runs and
  \<open>__exit__\<close> is called on every way out of it; \<open>__exit__\<close> returns \<open>None\<close> here,
  so an exception of the body is raised again after it.
\<close>

definition with_builder ::
  "globals \<Rightarrow> builder \<Rightarrow> (builder \<Rightarrow> world \<Rightarrow> (pyerror + 'a) \<times> builder \<times> world) \<Rightarrow> world \<Rightarrow>
     (pyerror + 'a) \<times> builder \<times> world" where
  "with_builder g self body w =
     (case enter g self w of
        (Inl e, self1, w1) \<Rightarrow> (Inl e, self1, w1)
      | (Inr b, self1, w1) \<Rightarrow>
          (case body b w1 of
             (r, self2, w2) \<Rightarrow>
               (case exit self2 w2 of
                  (Inl e, self3, w3) \<Rightarrow> (Inl e, self3, w3)
                | (Inr _, self3, w3) \<Rightarrow> (r, self3, w3))))"

text \<open>
  A caller that makes a sequence of calls on one builder, going on after a call that
  raised. The result lists, for each call, whether it raised.
\<close>

datatype call =
    Begin
  | RenderChapter assignment Chapter
  | Index
  | Compress "string option"
  | Finalize "string option"
  | Cleanup

definition forget :: "(pyerror + 'a) \<times> builder \<times> world \<Rightarrow> (pyerror + unit) \<times> builder \<times> world" where
  "forget r = (case r of (x, self, w) \<Rightarrow> (map_sum (\<lambda>e. e) (\<lambda>_. ()) x, self, w))"

fun run_call :: "globals \<Rightarrow> call \<Rightarrow> builder \<Rightarrow> world \<Rightarrow> (pyerror + unit) \<times> builder \<times> world" where
  "run_call g Begin self w = forget (begin_build g self w)"
| "run_call g (RenderChapter a c) self w = render_chapter self a c w"
| "run_call g Index self w = index g self w"
| "run_call g (Compress p) self w = forget (compress self p w)"
| "run_call g (Finalize p) self w = forget (finalize g self p w)"
| "run_call g Cleanup self w = cleanup self w"

fun run_calls ::
  "globals \<Rightarrow> call list \<Rightarrow> builder \<Rightarrow> world \<Rightarrow> (pyerror + unit) list \<times> builder \<times> world" where
  "run_calls g [] self w = ([], self, w)"
| "run_calls g (c # cs) self w =
     (case run_call g c self w of
        (r, self1, w1) \<Rightarrow>
          (case run_calls g cs self1 w1 of
             (rs, self2, w2) \<Rightarrow> (r # rs, self2, w2)))"


section \<open>Notions used in the statements\<close>

text \<open>The \<open>render_chapter\<close> calls of a call sequence, and their arguments in call order.\<close>

fun is_render :: "call \<Rightarrow> bool" where
  "is_render (RenderChapter a c) = True"
| "is_render _ = False"

fun rendered :: "call list \<Rightarrow> (assignment \<times> Chapter) list" where
  "rendered [] = []"
| "rendered (RenderChapter a c # cs) = (a, c) # rendered cs"
| "rendered (_ # cs) = rendered cs"

text \<open>\<open>os.path.isdir\<close> and \<open>os.path.exists\<close>, to state what is on disk.\<close>

definition os_path_isdir :: "world \<Rightarrow> string \<Rightarrow> bool" where
  "os_path_isdir w p =
     (p \<noteq> [] \<and> (case lookup (root w) (locate w p) of Some (Dir _) \<Rightarrow> True | _ \<Rightarrow> False))"

definition os_path_exists :: "world \<Rightarrow> string \<Rightarrow> bool" where
  "os_path_exists w p = (p \<noteq> [] \<and> lookup (root w) (locate w p) \<noteq> None)"

text \<open>
  Reading an archive back: \<open>ZipFile(path).infolist()\<close> as the list of member names with
  their compression methods, \<open>namelist()\<close>, the compression method of the member with
  a given name (\<open>getinfo(name).compress_type\<close>: of the last member written under that
  name) and the name of the first member (\<open>namelist()[0]\<close>).
\<close>

definition zip_infolist :: "world \<Rightarrow> string \<Rightarrow> pyerror + (string \<times> zip_method) list" where
  "zip_infolist w p =
     (case read_file w p of
        Inl e \<Rightarrow> Inl e
      | Inr (Data _) \<Rightarrow> Inl (Raised ''BadZipFile'')
      | Inr (Archive ms) \<Rightarrow> Inr (map (\<lambda>m. (fst m, fst (snd m))) ms))"

definition zip_namelist :: "world \<Rightarrow> string \<Rightarrow> pyerror + string list" where
  "zip_namelist w p = map_sum (\<lambda>e. e) (map fst) (zip_infolist w p)"

definition zip_getinfo :: "world \<Rightarrow> string \<Rightarrow> string \<Rightarrow> pyerror + zip_method" where
  "zip_getinfo w p name =
     (case zip_infolist w p of
        Inl e \<Rightarrow> Inl e
      | Inr ms \<Rightarrow>
          (case map_of (rev ms) name of
             None \<Rightarrow> Inl (Raised ''KeyError'')
           | Some m \<Rightarrow> Inr m))"

definition zip_first_name :: "world \<Rightarrow> string \<Rightarrow> pyerror + string" where
  "zip_first_name w p =
     (case zip_namelist w p of
        Inl e \<Rightarrow> Inl e
      | Inr names \<Rightarrow> py_index names 0)"

text \<open>
  The names a directory entry can have. A well-formed tree: the names of a directory are
  distinct, and each is a name an entry can have. A well-formed world has such a tree and
  a working directory made of such names.
\<close>

definition valid_name :: "string \<Rightarrow> bool" where
  "valid_name n = (n \<noteq> [] \<and> n \<noteq> ''.'' \<and> n \<noteq> ''..'' \<and> CHR ''/'' \<notin> set n)"

fun wf_node :: "node \<Rightarrow> bool" where
  "wf_node (File _) = True"
| "wf_node (Dir es) =
     (distinct (map fst es) \<and> (\<forall>e\<in>set es. valid_name (fst e) \<and> wf_node (snd e)))"

definition wf_world :: "world \<Rightarrow> bool" where
  "wf_world w = (wf_node (root w) \<and> (\<forall>c\<in>set (cwd w). valid_name c))"

text \<open>The regular files below a node, each with its path from the node and its content.\<close>

fun files_of :: "node \<Rightarrow> (string list \<times> content) list" where
  "files_of (File d) = [([], d)]"
| "files_of (Dir es) =
     concat (map (\<lambda>e. map (\<lambda>pd. (fst e # fst pd, snd pd)) (files_of (snd e))) es)"

text \<open>
  For the proofs: the path that \<open>os.walk\<close> builds for the directory reached from the
  base path through the names \<open>ds\<close>; the files of a tree in the order in which
  \<open>compress\<close> meets them; the archive member that \<open>compress\<close> makes of a file
  other than the archive's own; what holds of the member made of any file, where
  \<open>own\<close> is the place of the archive's own file.
\<close>

definition dirpath_of :: "string \<Rightarrow> string list \<Rightarrow> string" where
  "dirpath_of b ds = foldl os_path_join b ds"

fun file_content :: "node \<Rightarrow> content" where
  "file_content (File d) = d"
| "file_content (Dir _) = Data []"

function walk_files :: "world \<Rightarrow> string list \<Rightarrow> node \<Rightarrow> (string list \<times> content) list" where
  "walk_files w ds (File _) = []"
| "walk_files w ds (Dir es) =
     map (\<lambda>e. (ds @ [fst e], file_content (snd e)))
       (filter (\<lambda>e. \<not> is_dir (snd e)) (scandir w es))
     @ concat (map (\<lambda>e. walk_files w (ds @ [fst e]) (snd e)) (scandir w es))"
  by pat_completeness auto

termination
proof (relation "measure (\<lambda>(w, ds, n). size n)")
  show "wf (measure (\<lambda>(w, ds, n). size n))" by simp
next
  fix w :: world and ds :: "string list" and es :: "(string \<times> node) list" and e
  assume "e \<in> set (scandir w es)"
  then have "e \<in> set es"
    by (auto simp: scandir_def Let_def split: if_splits dest: mset_eq_setD)
  then have "size (snd e) < size (Dir es)"
    by (induction es) auto
  then show "((w, ds @ [fst e], snd e), (w, ds, Dir es)) \<in> measure (\<lambda>(w, ds, n). size n)"
    by simp
qed

definition member_of :: "zip_method \<Rightarrow> string list \<times> content \<Rightarrow> string \<times> zip_method \<times> content" where
  "member_of m pd =
     (str_join ''/'' (fst pd), if last (fst pd) = ''mimetype'' then ZIP_STORED else m, snd pd)"

definition is_member ::
  "string list \<Rightarrow> zip_method \<Rightarrow> string \<times> zip_method \<times> content \<Rightarrow> string list \<times> content \<Rightarrow> bool" where
  "is_member own m x pd =
     (fst x = str_join ''/'' (fst pd)
      \<and> fst (snd x) = (if last (fst pd) = ''mimetype'' then ZIP_STORED else m)
      \<and> (snd (snd x) = snd pd \<or> fst pd = own))"

section \<open>Example inputs\<close>

text \<open>
  A small world: the package's static files under \<open>/pkg/static\<close>, an empty \<open>/tmp\<close>
  and the working directory \<open>/out\<close>, on a file system that lists the newest entry of a
  directory first (as tmpfs does), and where an archive that copies itself is small enough
  for the copy to end with what had been written before; templates that render to a fixed
  text; a factory that returns the chapter's content, one that fails to convert, and one
  that fails to convert a chapter without content; a template that renders the links of
  the chapters it is given.
\<close>

definition ex_world :: world where
  "ex_world =
     \<lparr>root = Dir [(''pkg'', Dir [(''static'', Dir
                [(''mimetype'', File (Data ''m'')),
                 (''container.xml'', File (Data ''c'')),
                 (''css'', Dir [(''coverpage.css'', File (Data ''a'')),
                                (''styles.css'', File (Data ''b''))])])]),
              (''tmp'', Dir []),
              (''out'', Dir [])],
      cwd = [''out''],
      tmpnames = [''/tmp/t1'', ''/tmp/t2''],
      listing_order = rev,
      self_copy = (\<lambda>ms. Some (Archive ms))\<rparr>"

definition ex_template :: template where
  "ex_template kw = Inr ''x''"

definition ex_globals :: globals where
  "ex_globals = \<lparr>BASE = ''/pkg'', jinja_env = (\<lambda>name. Some ex_template)\<rparr>"

definition ex_spec :: epub_spec where
  "ex_spec =
     \<lparr>title = ''T'', creator = ''pypub'', subtitle = [], language = ''en'', rights = [],
      publisher = ''pypub'', spec_encoding = ''utf-8'', date = 0, epub_dir = None,
      css_paths = []\<rparr>"

definition ex_factory :: chapter_factory where
  "ex_factory c image_dir t kw w = (Inr (chapter_content c), w)"

definition ex_failing_factory :: chapter_factory where
  "ex_failing_factory c image_dir t kw w = (Inl (Raised ''ConversionError''), w)"

definition ex_picky_factory :: chapter_factory where
  "ex_picky_factory c image_dir t kw w =
     (if chapter_content c = [] then (Inl (Raised ''ConversionError''), w)
      else (Inr (chapter_content c), w))"

definition ex_chapter :: Chapter where
  "ex_chapter = \<lparr>chapter_title = ''One'', chapter_content = ''hi''\<rparr>"

definition ex_empty_chapter :: Chapter where
  "ex_empty_chapter = \<lparr>chapter_title = ''Two'', chapter_content = []\<rparr>"

definition ex_listing_template :: template where
  "ex_listing_template kw =
     (case map_of kw ''chapters'' of
        Some (VChapters cs) \<Rightarrow> Inr (concat (map (\<lambda>ac. link (fst ac) @ '';'') cs))
      | _ \<Rightarrow> Inr [])"

definition ex_listing_globals :: globals where
  "ex_listing_globals = \<lparr>BASE = ''/pkg'', jinja_env = (\<lambda>name. Some ex_listing_template)\<rparr>"

definition ex_assign :: "string \<Rightarrow> int \<Rightarrow> assignment" where
  "ex_assign l n = \<lparr>assign_id = l, link = l, play_order = n\<rparr>"

text \<open>Three chapters submitted with the play orders 3, 1, 2.\<close>

definition ex_calls :: "call list" where
  "ex_calls =
     [Begin,
      RenderChapter (ex_assign ''c3.xhtml'' 3) ex_chapter,
      RenderChapter (ex_assign ''c1.xhtml'' 1) ex_chapter,
      RenderChapter (ex_assign ''c2.xhtml'' 2) ex_chapter]"

text \<open>The same three submissions, the second one of a chapter without content.\<close>

definition ex_calls_one_empty :: "call list" where
  "ex_calls_one_empty =
     [Begin,
      RenderChapter (ex_assign ''c3.xhtml'' 3) ex_chapter,
      RenderChapter (ex_assign ''c1.xhtml'' 1) ex_empty_chapter,
      RenderChapter (ex_assign ''c2.xhtml'' 2) ex_chapter]"

text \<open>
  The layout that \<open>begin\<close> makes in the small world, a builder that has it, the state
  after \<open>begin\<close> and the state after \<open>begin\<close> and \<open>compress\<close>.
\<close>

definition ex_dirs :: epub_dirs where
  "ex_dirs =
     \<lparr>basedir = ''/tmp/t1'', oebps = ''/tmp/t1/OEBPS'', metainf = ''/tmp/t1/META-INF'',
      images = ''/tmp/t1/OEBPS/images'', styles = ''/tmp/t1/OEBPS/styles''\<rparr>"

definition ex_layout_entries :: "(string \<times> node) list" where
  "ex_layout_entries =
     [(''OEBPS'',
       Dir [(''images'', Dir []),
            (''styles'', Dir [(''coverpage.css'', File (Data ''a'')),
                              (''styles.css'', File (Data ''b''))]),
            (''coverpage.xhtml'', File (Data ''x''))]),
      (''META-INF'', Dir [(''container.xml'', File (Data ''c''))]),
      (''mimetype'', File (Data ''m''))]"

definition ex_begun :: "chapter_factory \<Rightarrow> builder" where
  "ex_begun f = (init ex_spec f ''u'')\<lparr>dirs := Some ex_dirs, template := Some ex_template\<rparr>"

definition ex_after_begin :: "(pyerror + epub_dirs) \<times> builder \<times> world" where
  "ex_after_begin = begin_build ex_globals (init ex_spec ex_factory ''u'') ex_world"

definition ex_compressed :: "(pyerror + string) \<times> builder \<times> world" where
  "ex_compressed = compress (fst (snd ex_after_begin)) None (snd (snd ex_after_begin))"

text \<open>
  A build whose templates list the chapters: \<open>begin\<close>, a chapter whose conversion
  fails, then a chapter that is converted, then \<open>index\<close>.
\<close>

definition ex_listed_begin :: "(pyerror + epub_dirs) \<times> builder \<times> world" where
  "ex_listed_begin = begin_build ex_listing_globals (init ex_spec ex_picky_factory ''u'') ex_world"

definition ex_failed_render :: "(pyerror + unit) \<times> builder \<times> world" where
  "ex_failed_render =
     render_chapter (fst (snd ex_listed_begin)) (ex_assign ''c1.xhtml'' 1) ex_empty_chapter
       (snd (snd ex_listed_begin))"

definition ex_later :: "(pyerror + unit) list \<times> builder \<times> world" where
  "ex_later =
     run_calls ex_listing_globals [RenderChapter (ex_assign ''c2.xhtml'' 2) ex_chapter]
       (fst (snd ex_failed_render)) (snd (snd ex_failed_render))"

definition ex_indexed :: "(pyerror + unit) \<times> builder \<times> world" where
  "ex_indexed = index ex_listing_globals (fst (snd ex_later)) (snd (snd ex_later))"

text \<open>The body of a \<open>with\<close> statement that renders one chapter.\<close>

definition ex_body :: "builder \<Rightarrow> world \<Rightarrow> (pyerror + unit) \<times> builder \<times> world" where
  "ex_body b w = render_chapter b (ex_assign ''c1.xhtml'' 1) ex_chapter w"

text \<open>
  Builds that differ from the small one in one field: a stylesheet that does not exist; a
  title with a slash; the current directory as working directory.
\<close>

definition ex_spec_missing_css :: epub_spec where
  "ex_spec_missing_css = ex_spec\<lparr>css_paths := [''/nope.css'']\<rparr>"

definition ex_spec_slash :: epub_spec where
  "ex_spec_slash = ex_spec\<lparr>title := ''a/b''\<rparr>"

definition ex_spec_here :: epub_spec where
  "ex_spec_here = ex_spec\<lparr>epub_dir := Some ''.''\<rparr>"

text \<open>A build in the current directory: the state after \<open>begin\<close>, and after \<open>compress\<close>.\<close>

definition ex_here_begin :: "(pyerror + epub_dirs) \<times> builder \<times> world" where
  "ex_here_begin = begin_build ex_globals (init ex_spec_here ex_factory ''u'') ex_world"

definition ex_here_compressed :: "(pyerror + string) \<times> builder \<times> world" where
  "ex_here_compressed = compress (fst (snd ex_here_begin)) None (snd (snd ex_here_begin))"

text \<open>
  A build in a temporary directory whose one chapter has the link \<open>mimetype\<close> and whose
  archive is written into the layout directory itself.
\<close>

definition ex_calls_archive_inside :: "call list" where
  "ex_calls_archive_inside =
     [Begin,
      RenderChapter (ex_assign ''mimetype'' 1) ex_chapter,
      Compress (Some ''/tmp/t1/book.epub'')]"

section \<open>Stage order\<close>

lemma begin_build_chapters:
  "begin_build g self w = (r, self', w') \<Longrightarrow> chapters self' = chapters self"
  unfolding begin_build_def Let_def
  by (auto split: sum.splits option.splits prod.splits)

lemma begin_build_success:
  "begin_build g self w = (Inr d, self', w') \<Longrightarrow> dirs self' = Some d \<and> template self' \<noteq> None"
  unfolding begin_build_def Let_def
  by (auto split: sum.splits option.splits prod.splits)

lemma index_self: "index g self w = (r, self', w') \<Longrightarrow> self' = self"
  unfolding index_def by (auto split: sum.splits option.splits prod.splits)

lemma compress_self: "compress self p w = (r, self', w') \<Longrightarrow> self' = self"
  unfolding compress_def by (auto split: sum.splits option.splits prod.splits)

lemma finalize_self: "finalize g self p w = (r, self', w') \<Longrightarrow> self' = self"
  unfolding finalize_def
  by (auto split: sum.splits option.splits prod.splits dest: index_self compress_self)

lemma cleanup_chapters: "cleanup self w = (r, self', w') \<Longrightarrow> chapters self' = chapters self"
  unfolding cleanup_def by (auto split: option.splits)

lemma render_chapter_unbegun:
  "dirs self = None \<Longrightarrow>
   render_chapter self a c w =
     (Inl (RuntimeError ''cannot render_chapter before `begin`''), self, w)"
  by (simp add: render_chapter_def)

lemma index_unbegun:
  "dirs self = None \<Longrightarrow> index g self w = (Inl (RuntimeError ''cannot index epub before `begin`''), self, w)"
  by (simp add: index_def)

lemma compress_unbegun:
  "dirs self = None \<Longrightarrow> compress self p w = (Inl (RuntimeError ''cannot finalize before `begin`''), self, w)"
  by (simp add: compress_def)

lemma run_call_unbegun:
  assumes "dirs self = None" and "c \<noteq> Begin" and "run_call g c self w = (r, self', w')"
  shows "self' = self \<and> w' = w"
  using assms
  by (cases c)
     (auto simp: render_chapter_unbegun index_unbegun compress_unbegun finalize_def
                 cleanup_def forget_def)

lemma run_calls_unbegun:
  "dirs self = None \<Longrightarrow> \<forall>c\<in>set cs. c \<noteq> Begin \<Longrightarrow> run_calls g cs self w = (rs, self', w') \<Longrightarrow>
   self' = self \<and> w' = w"
proof (induction cs arbitrary: rs)
  case Nil
  then show ?case by simp
next
  case (Cons c cs)
  obtain r s1 w1 where step: "run_call g c self w = (r, s1, w1)"
    by (cases "run_call g c self w") auto
  have "c \<noteq> Begin" using Cons.prems(2) by simp
  then have same: "s1 = self \<and> w1 = w"
    using run_call_unbegun [OF Cons.prems(1) _ step] by blast
  obtain rs1 s2 w2 where rest: "run_calls g cs s1 w1 = (rs1, s2, w2)"
    by (cases "run_calls g cs s1 w1") auto
  have fin: "self' = s2 \<and> w' = w2"
    using Cons.prems(3) by (simp add: step rest)
  have "\<forall>c\<in>set cs. c \<noteq> Begin" using Cons.prems(2) by simp
  from Cons.IH [OF Cons.prems(1) this, of rs1] rest same fin show ?case by simp
qed

text \<open>
  C2. On a builder on which \<open>begin\<close> has not been called (whatever else has been called
  on it since its construction), \<open>render_chapter\<close>, \<open>index\<close> and \<open>compress\<close> each raise
  the builder's \<open>RuntimeError\<close> and leave the builder and the file system as they were.
\<close>

theorem calls_before_begin_raise:
  assumes "\<forall>c\<in>set cs. c \<noteq> Begin"
    and "run_calls g cs (init e f u) w = (rs, self, w')"
  shows "render_chapter self a c w' =
           (Inl (RuntimeError ''cannot render_chapter before `begin`''), self, w')
       \<and> index g self w' = (Inl (RuntimeError ''cannot index epub before `begin`''), self, w')
       \<and> compress self p w' = (Inl (RuntimeError ''cannot finalize before `begin`''), self, w')"
proof -
  have d: "dirs (init e f u) = None" by (simp add: init_def)
  have "self = init e f u"
    using run_calls_unbegun [OF d assms(1) assms(2)] by (rule conjunct1)
  with d have dn: "dirs self = None" by (simp only:)
  show ?thesis
    by (intro conjI render_chapter_unbegun [OF dn] index_unbegun [OF dn] compress_unbegun [OF dn])
qed

theorem calls_before_begin_raise_witness:
  "Cleanup \<noteq> Begin \<and> Index \<noteq> Begin
   \<and> render_chapter (init ex_spec ex_factory ''u'') (ex_assign ''c1.xhtml'' 1) ex_chapter ex_world =
       (Inl (RuntimeError ''cannot render_chapter before `begin`''),
        init ex_spec ex_factory ''u'', ex_world)
   \<and> index ex_globals (init ex_spec ex_factory ''u'') ex_world =
       (Inl (RuntimeError ''cannot index epub before `begin`''),
        init ex_spec ex_factory ''u'', ex_world)
   \<and> compress (init ex_spec ex_factory ''u'') None ex_world =
       (Inl (RuntimeError ''cannot finalize before `begin`''),
        init ex_spec ex_factory ''u'', ex_world)"
proof -
  have h1: "\<forall>c\<in>set [Cleanup, Index]. c \<noteq> Begin" by simp
  have c1: "run_call ex_globals Cleanup (init ex_spec ex_factory ''u'') ex_world =
              (Inr (), init ex_spec ex_factory ''u'', ex_world)"
    by (simp add: cleanup_def init_def)
  have c2: "run_call ex_globals Index (init ex_spec ex_factory ''u'') ex_world =
              (Inl (RuntimeError ''cannot index epub before `begin`''),
               init ex_spec ex_factory ''u'', ex_world)"
    by (simp add: index_def init_def)
  have h2: "run_calls ex_globals [Cleanup, Index] (init ex_spec ex_factory ''u'') ex_world =
              ([Inr (), Inl (RuntimeError ''cannot index epub before `begin`'')],
               init ex_spec ex_factory ''u'', ex_world)"
    by (simp add: c1 c2 del: run_call.simps)
  note r = calls_before_begin_raise [OF h1 h2, of "ex_assign ''c1.xhtml'' 1" ex_chapter None]
  show ?thesis
    apply (intro conjI call.distinct)
      apply (rule r [THEN conjunct1])
     apply (rule r [THEN conjunct2, THEN conjunct1])
    apply (rule r [THEN conjunct2, THEN conjunct2])
    done
qed

section \<open>The accumulator, repeated begin, failing chapters\<close>

lemma run_call_chapters:
  assumes "run_call g c self w = (r, self', w')"
  shows "is_render c \<longrightarrow> \<not> isl r \<longrightarrow> chapters self' = chapters self @ rendered [c]"
    and "\<not> is_render c \<longrightarrow> chapters self' = chapters self"
proof -
  show "is_render c \<longrightarrow> \<not> isl r \<longrightarrow> chapters self' = chapters self @ rendered [c]"
    using assms
    by (cases c) (auto simp: render_chapter_def Let_def split: option.splits prod.splits sum.splits)
  show "\<not> is_render c \<longrightarrow> chapters self' = chapters self"
    using assms
    by (cases c)
       (auto simp: forget_def split: prod.splits
             dest: begin_build_chapters index_self compress_self finalize_self cleanup_chapters)
qed

lemma rendered_Cons: "rendered (c # cs) = rendered [c] @ rendered cs"
  by (cases c) simp_all

lemma run_calls_chapters:
  "run_calls g cs self w = (rs, self', w') \<Longrightarrow>
   \<forall>(c, r)\<in>set (zip cs rs). is_render c \<longrightarrow> \<not> isl r \<Longrightarrow>
   chapters self' = chapters self @ rendered cs"
proof (induction cs arbitrary: self w rs)
  case Nil
  then show ?case by simp
next
  case (Cons c cs)
  obtain r s1 w1 where step: "run_call g c self w = (r, s1, w1)"
    by (cases "run_call g c self w") auto
  obtain rs1 s2 w2 where rest: "run_calls g cs s1 w1 = (rs1, s2, w2)"
    by (cases "run_calls g cs s1 w1") auto
  have fin: "rs = r # rs1 \<and> self' = s2 \<and> w' = w2"
    using Cons.prems(1) by (simp add: step rest)
  have ok: "is_render c \<longrightarrow> \<not> isl r" and oks: "\<forall>(c, r)\<in>set (zip cs rs1). is_render c \<longrightarrow> \<not> isl r"
    using Cons.prems(2) fin by auto
  have one: "chapters s1 = chapters self @ rendered [c]"
  proof (cases "is_render c")
    case True
    with ok run_call_chapters(1) [OF step] show ?thesis by blast
  next
    case False
    with run_call_chapters(2) [OF step] show ?thesis by (cases c) simp_all
  qed
  have rest': "run_calls g cs s1 w1 = (rs1, self', w')"
    using rest fin by simp
  have "chapters self' = chapters s1 @ rendered cs"
    using Cons.IH [OF rest' oks] .
  with one show ?case by (simp add: rendered_Cons [of c cs])
qed

lemma length_rendered: "length (rendered cs) = length (filter is_render cs)"
  by (induction cs rule: rendered.induct) simp_all

lemma run_call_begun:
  assumes "run_call g c self w = (r, self', w')" and "c \<noteq> Cleanup"
    and "dirs self \<noteq> None" and "template self \<noteq> None"
  shows "dirs self' \<noteq> None \<and> template self' \<noteq> None
       \<and> chapters self' = chapters self @ rendered [c]"
proof (cases c)
  case Begin
  with assms show ?thesis
    by (auto simp: forget_def begin_build_def)
next
  case (RenderChapter a ch)
  with assms show ?thesis
    by (auto simp: render_chapter_def Let_def split: prod.splits sum.splits)
next
  case Index
  with assms index_self [of g self w r self' w'] show ?thesis by simp
next
  case (Compress p)
  with assms show ?thesis
    by (auto simp: forget_def split: prod.splits dest: compress_self)
next
  case (Finalize p)
  with assms show ?thesis
    by (auto simp: forget_def split: prod.splits dest: finalize_self)
next
  case Cleanup
  with assms show ?thesis by simp
qed

lemma run_calls_begun:
  "run_calls g cs self w = (rs, self', w') \<Longrightarrow> Cleanup \<notin> set cs \<Longrightarrow>
   dirs self \<noteq> None \<Longrightarrow> template self \<noteq> None \<Longrightarrow>
   chapters self' = chapters self @ rendered cs"
proof (induction cs arbitrary: self w rs)
  case Nil
  then show ?case by simp
next
  case (Cons c cs)
  obtain r s1 w1 where step: "run_call g c self w = (r, s1, w1)"
    by (cases "run_call g c self w") auto
  obtain rs1 s2 w2 where rest: "run_calls g cs s1 w1 = (rs1, s2, w2)"
    by (cases "run_calls g cs s1 w1") auto
  have fin: "rs = r # rs1 \<and> self' = s2 \<and> w' = w2"
    using Cons.prems(1) by (simp add: step rest)
  have c: "c \<noteq> Cleanup" and cs: "Cleanup \<notin> set cs" using Cons.prems(2) by auto
  from run_call_begun [OF step c Cons.prems(3) Cons.prems(4)]
  have d1: "dirs s1 \<noteq> None" and t1: "template s1 \<noteq> None"
    and one: "chapters s1 = chapters self @ rendered [c]" by blast+
  have rest': "run_calls g cs s1 w1 = (rs1, self', w')"
    using rest fin by simp
  have "chapters self' = chapters s1 @ rendered cs"
    using Cons.IH [OF rest' cs d1 t1] .
  with one show ?case by (simp add: rendered_Cons [of c cs])
qed

text \<open>
  C3 (amended). Whatever calls were made on the builder before:
  \<^item> over any sequence of calls in which every \<open>render_chapter\<close> call returned, the
    accumulator grows by exactly the (assignment, chapter) pairs of those calls, in call
    order, one per call; the play-order values play no part;
  \<^item> over a \<open>begin\<close> that returned and any calls but \<open>cleanup\<close> after it, the
    accumulator grows by the pairs of all the \<open>render_chapter\<close> calls made, in call
    order, those that raised (in the conversion or in the write) as well as those that
    returned; so it grows by as many entries as there were calls, and by as many as there
    were successful calls only when none failed.

  The accumulator of a new builder is empty.
\<close>

theorem accumulator_holds_every_attempt:
  assumes "run_calls g cs self0 w = (rs, self, w')"
  shows "((\<forall>(c, r)\<in>set (zip cs rs). is_render c \<longrightarrow> \<not> isl r) \<longrightarrow>
            chapters self = chapters self0 @ rendered cs)
       \<and> (\<forall>cs'. cs = Begin # cs' \<and> \<not> isl (hd rs) \<and> Cleanup \<notin> set cs' \<longrightarrow>
            chapters self = chapters self0 @ rendered cs')
       \<and> length (rendered cs) = length (filter is_render cs)
       \<and> chapters (init e f u) = []"
proof (intro conjI allI impI)
  assume ok: "\<forall>(c, r)\<in>set (zip cs rs). is_render c \<longrightarrow> \<not> isl r"
  from run_calls_chapters [OF assms ok] show "chapters self = chapters self0 @ rendered cs" .
next
  fix cs'
  assume h: "cs = Begin # cs' \<and> \<not> isl (hd rs) \<and> Cleanup \<notin> set cs'"
  obtain r s1 w1 where step: "begin_build g self0 w = (r, s1, w1)"
    by (cases "begin_build g self0 w") auto
  obtain rs1 s2 w2 where rest: "run_calls g cs' s1 w1 = (rs1, s2, w2)"
    by (cases "run_calls g cs' s1 w1") auto
  from assms h have fin: "rs = map_sum (\<lambda>e. e) (\<lambda>_. ()) r # rs1 \<and> self = s2 \<and> w' = w2"
    by (simp add: step rest forget_def)
  with h have "\<not> isl r" by (cases r) simp_all
  then obtain d where r: "r = Inr d" by (cases r) simp_all
  from begin_build_success [OF step [unfolded r]]
  have d1: "dirs s1 \<noteq> None" and t1: "template s1 \<noteq> None" by simp_all
  have c1: "chapters s1 = chapters self0"
    using begin_build_chapters [OF step] .
  have rest': "run_calls g cs' s1 w1 = (rs1, self, w2)" using rest fin by simp
  from run_calls_begun [OF rest' _ d1 t1] h c1
  show "chapters self = chapters self0 @ rendered cs'" by simp
next
  show "length (rendered cs) = length (filter is_render cs)" by (rule length_rendered)
next
  show "chapters (init e f u) = []" by (simp add: init_def)
qed

theorem accumulator_holds_every_attempt_witness:
  "fst (run_calls ex_globals ex_calls_one_empty (init ex_spec ex_picky_factory ''u'') ex_world)
     = [Inr (), Inr (), Inl (Raised ''ConversionError''), Inr ()]
   \<and> map (\<lambda>p. play_order (fst p))
        (chapters (fst (snd (run_calls ex_globals ex_calls_one_empty
                              (init ex_spec ex_picky_factory ''u'') ex_world))))
       = [3, 1, 2]
   \<and> fst (run_calls ex_globals ex_calls (init ex_spec ex_factory ''u'') ex_world)
     = [Inr (), Inr (), Inr (), Inr ()]
   \<and> map (\<lambda>p. play_order (fst p))
        (chapters (fst (snd (run_calls ex_globals ex_calls (init ex_spec ex_factory ''u'') ex_world))))
       = [3, 1, 2]"
proof -
  let ?X = "run_calls ex_globals ex_calls_one_empty (init ex_spec ex_picky_factory ''u'') ex_world"
  let ?Y = "run_calls ex_globals ex_calls (init ex_spec ex_factory ''u'') ex_world"
  let ?cs = "[RenderChapter (ex_assign ''c3.xhtml'' 3) ex_chapter,
              RenderChapter (ex_assign ''c1.xhtml'' 1) ex_empty_chapter,
              RenderChapter (ex_assign ''c2.xhtml'' 2) ex_chapter]"
  have rs: "fst ?X = [Inr (), Inr (), Inl (Raised ''ConversionError''), Inr ()]" by code_simp
  have h1: "?X = (fst ?X, fst (snd ?X), snd (snd ?X))" by simp
  have h2: "ex_calls_one_empty = Begin # ?cs \<and> \<not> isl (hd (fst ?X)) \<and> Cleanup \<notin> set ?cs"
    unfolding rs by (simp add: ex_calls_one_empty_def)
  from accumulator_holds_every_attempt [OF h1] h2
  have "chapters (fst (snd ?X)) = chapters (init ex_spec ex_picky_factory ''u'') @ rendered ?cs"
    by blast
  then have x: "map (\<lambda>p. play_order (fst p)) (chapters (fst (snd ?X))) = [3, 1, 2]"
    by (simp add: ex_assign_def init_def)
  have rs': "fst ?Y = [Inr (), Inr (), Inr (), Inr ()]" by code_simp
  have h3: "?Y = (fst ?Y, fst (snd ?Y), snd (snd ?Y))" by simp
  have h4: "\<forall>(c, r)\<in>set (zip ex_calls (fst ?Y)). is_render c \<longrightarrow> \<not> isl r"
    unfolding rs' by (simp add: ex_calls_def)
  from accumulator_holds_every_attempt [OF h3] h4
  have "chapters (fst (snd ?Y)) = chapters (init ex_spec ex_factory ''u'') @ rendered ex_calls"
    by blast
  then have y: "map (\<lambda>p. play_order (fst p)) (chapters (fst (snd ?Y))) = [3, 1, 2]"
    by (simp add: ex_calls_def ex_assign_def init_def)
  show ?thesis by (intro conjI rs x rs' y)
qed

text \<open>
  C3 as stated fails when a call raises after the stage check: of three
  \<open>render_chapter\<close> calls after \<open>begin\<close>, the second fails in the conversion; two calls
  were successful and the accumulator has three entries, the failed chapter among them.
\<close>

theorem accumulator_counterexample:
  "fst (run_calls ex_globals ex_calls_one_empty (init ex_spec ex_picky_factory ''u'') ex_world)
     = [Inr (), Inr (), Inl (Raised ''ConversionError''), Inr ()]
   \<and> length (chapters (fst (snd (run_calls ex_globals ex_calls_one_empty
                                  (init ex_spec ex_picky_factory ''u'') ex_world)))) = 3
   \<and> chapters (fst (snd (run_calls ex_globals ex_calls_one_empty
                          (init ex_spec ex_picky_factory ''u'') ex_world))) ! 1
       = (ex_assign ''c1.xhtml'' 1, ex_empty_chapter)"
  by code_simp

text \<open>
  C4. When \<open>begin\<close> has returned a layout, calling it again returns the same layout,
  raises nothing, and leaves the builder and the file system untouched.
\<close>

theorem begin_twice_same_layout:
  assumes "begin_build g self w = (Inr d, self', w')"
  shows "begin_build g self' w' = (Inr d, self', w')"
proof -
  from begin_build_success [OF assms] obtain t
    where "dirs self' = Some d" and "template self' = Some t" by auto
  then show ?thesis by (simp add: begin_build_def)
qed

theorem begin_twice_same_layout_witness:
  "fst (begin_build ex_globals (init ex_spec ex_factory ''u'') ex_world) = Inr ex_dirs
   \<and> begin_build ex_globals
        (fst (snd (begin_build ex_globals (init ex_spec ex_factory ''u'') ex_world)))
        (snd (snd (begin_build ex_globals (init ex_spec ex_factory ''u'') ex_world)))
       = begin_build ex_globals (init ex_spec ex_factory ''u'') ex_world"
proof -
  let ?X = "begin_build ex_globals (init ex_spec ex_factory ''u'') ex_world"
  have r: "fst ?X = Inr ex_dirs" by code_simp
  have h: "?X = (Inr ex_dirs, fst (snd ?X), snd (snd ?X))"
    using r by (metis prod.collapse)
  from begin_twice_same_layout [OF h] have "begin_build ex_globals (fst (snd ?X)) (snd (snd ?X)) = ?X"
    using h by (simp only:)
  with r show ?thesis by (rule_tac conjI)
qed

text \<open>
  C8. After \<open>begin\<close>, when the factory raises on a chapter, \<open>render_chapter\<close> raises that
  same exception; the file system is as that one factory call left it (the factory is not
  called again and nothing is written), and the layout and the template are still in
  place, so that further \<open>render_chapter\<close> calls pass the stage check.
\<close>

theorem conversion_error_propagates:
  assumes "dirs self = Some d" and "template self = Some t"
    and "factory self chap (images d) t
           [(''epub'', VEpub (epub self)), (''chapter'', VChapter chap)] w = (Inl e, w1)"
  shows "\<exists>self'. render_chapter self a chap w = (Inl e, self', w1)
           \<and> dirs self' = Some d \<and> template self' = Some t
           \<and> factory self' = factory self \<and> epub self' = epub self"
  using assms by (simp add: render_chapter_def Let_def)

theorem conversion_error_propagates_witness:
  "dirs (ex_begun ex_failing_factory) = Some ex_dirs
   \<and> template (ex_begun ex_failing_factory) = Some ex_template
   \<and> fst (render_chapter (ex_begun ex_failing_factory) (ex_assign ''c1.xhtml'' 1) ex_chapter ex_world)
       = Inl (Raised ''ConversionError'')
   \<and> dirs (fst (snd (render_chapter (ex_begun ex_failing_factory) (ex_assign ''c1.xhtml'' 1)
                      ex_chapter ex_world))) = Some ex_dirs
   \<and> snd (snd (render_chapter (ex_begun ex_failing_factory) (ex_assign ''c1.xhtml'' 1)
                 ex_chapter ex_world)) = ex_world"
proof -
  have h1: "dirs (ex_begun ex_failing_factory) = Some ex_dirs" by (simp add: ex_begun_def)
  have h2: "template (ex_begun ex_failing_factory) = Some ex_template" by (simp add: ex_begun_def)
  have h3: "factory (ex_begun ex_failing_factory) ex_chapter (images ex_dirs) ex_template
              [(''epub'', VEpub (epub (ex_begun ex_failing_factory))), (''chapter'', VChapter ex_chapter)]
              ex_world = (Inl (Raised ''ConversionError''), ex_world)"
    by (simp add: ex_begun_def init_def ex_failing_factory_def)
  from conversion_error_propagates [OF h1 h2 h3, of "ex_assign ''c1.xhtml'' 1"]
  obtain self' where
    "render_chapter (ex_begun ex_failing_factory) (ex_assign ''c1.xhtml'' 1) ex_chapter ex_world
       = (Inl (Raised ''ConversionError''), self', ex_world)"
    and "dirs self' = Some ex_dirs" by blast
  with h1 h2 show ?thesis by simp
qed

section \<open>Cleanup and the context manager\<close>

lemma lookup_remove_node: "p \<noteq> [] \<Longrightarrow> lookup (remove_node t p) (p @ q) = None"
proof (induction t p rule: remove_node.induct)
  case (3 es c)
  then show ?case by (simp add: AList.delete_conv)
next
  case (4 es c c' cs)
  then show ?case by (auto simp: AList.update_conv' split: option.splits)
qed simp_all










text \<open>
  C9 (amended). In \<open>with builder: body\<close>, entering calls \<open>begin\<close>; once \<open>__enter__\<close> has
  returned, whatever the body does, returning or raising, \<open>cleanup\<close> runs on the state
  the body left, the builder ends without a layout, and the body's result or exception is
  the statement's.
\<close>

theorem scoped_cleanup_after_enter:
  assumes "enter g self w = (Inr b, self1, w1)" and "body b w1 = (r, self2, w2)"
  shows "(\<exists>d. begin_build g self w = (Inr d, self1, w1)) \<and> b = self1
       \<and> with_builder g self body w = (r, fst (snd (cleanup self2 w2)), snd (snd (cleanup self2 w2)))
       \<and> dirs (fst (snd (cleanup self2 w2))) = None"
proof -
  have e: "(\<exists>d. begin_build g self w = (Inr d, self1, w1)) \<and> b = self1"
    using assms(1) by (auto simp: enter_def split: prod.splits sum.splits)
  have c: "fst (cleanup self2 w2) = Inr ()" "dirs (fst (snd (cleanup self2 w2))) = None"
    by (simp_all add: cleanup_def split: option.splits)
  obtain s3 w3 where x: "cleanup self2 w2 = (Inr (), s3, w3)"
    by (cases "dirs self2") (simp_all add: cleanup_def)
  have "with_builder g self body w = (r, fst (snd (cleanup self2 w2)), snd (snd (cleanup self2 w2)))"
    by (simp add: with_builder_def assms exit_def x)
  with e c show ?thesis by simp
qed

theorem scoped_cleanup_after_enter_witness:
  "fst (with_builder ex_globals (init ex_spec ex_failing_factory ''u'') ex_body ex_world)
     = Inl (Raised ''ConversionError'')
   \<and> dirs (fst (snd (with_builder ex_globals (init ex_spec ex_failing_factory ''u'') ex_body ex_world)))
     = None"
proof -
  let ?B = "begin_build ex_globals (init ex_spec ex_failing_factory ''u'') ex_world"
  have "fst ?B = Inr ex_dirs" by code_simp
  then obtain s1 w1 where B: "?B = (Inr ex_dirs, s1, w1)" by (metis prod.collapse)
  have h1: "enter ex_globals (init ex_spec ex_failing_factory ''u'') ex_world = (Inr s1, s1, w1)"
    by (simp add: enter_def B)
  let ?Z = "ex_body s1 w1"
  have h2: "?Z = (fst ?Z, fst (snd ?Z), snd (snd ?Z))" by simp
  have "fst (ex_body (fst (snd ?B)) (snd (snd ?B))) = Inl (Raised ''ConversionError'')" by code_simp
  then have z: "fst ?Z = Inl (Raised ''ConversionError'')" by (simp add: B)
  note t = scoped_cleanup_after_enter [where body = ex_body, OF h1 h2]
  from t have "fst (with_builder ex_globals (init ex_spec ex_failing_factory ''u'') ex_body ex_world) = fst ?Z"
    by simp
  moreover from t have "dirs (fst (snd (with_builder ex_globals (init ex_spec ex_failing_factory ''u'') ex_body ex_world))) = None"
    by simp
  ultimately show ?thesis using z by simp
qed

text \<open>
  C9 as stated fails when the exception is raised by the \<open>begin\<close> stage itself:
  with a stylesheet path that does not exist, \<open>begin\<close> raises inside \<open>__enter__\<close> after
  it has created the layout, \<open>__exit__\<close> is never called, and the temporary directory
  stays on disk.
\<close>

theorem scoped_cleanup_counterexample:
  "fst (with_builder ex_globals (init ex_spec_missing_css ex_factory ''u'') ex_body ex_world)
     = Inl FileNotFoundError
   \<and> dirs (fst (snd (with_builder ex_globals (init ex_spec_missing_css ex_factory ''u'') ex_body
                       ex_world))) = Some ex_dirs
   \<and> os_path_isdir (snd (snd (with_builder ex_globals (init ex_spec_missing_css ex_factory ''u'')
                                ex_body ex_world))) ''/tmp/t1''"
  by code_simp

section \<open>Strings and paths\<close>

lemma str_rfind_short: "length s < length sep \<Longrightarrow> str_rfind s sep = None"
  by (induction s) (auto dest: prefix_length_le)

lemma str_rfind_suffix: "str_rfind (a @ sep) sep = Some (length a)"
proof (induction a)
  case Nil
  show ?case by (cases sep) (simp_all add: str_rfind_short)
next
  case (Cons x a)
  then show ?case by simp
qed

lemma rsplit1_suffix: "hd (rsplit1 (a @ sep) sep) = a"
  by (simp add: rsplit1_def str_rfind_suffix)

lemma str_rfind_char_None: "c \<notin> set s \<Longrightarrow> str_rfind s [c] = None"
  by (induction s) auto

lemma str_rfind_char_last: "c \<notin> set x \<Longrightarrow> str_rfind (y @ c # x) [c] = Some (length y)"
  by (induction y) (auto simp: str_rfind_char_None)

lemma str_rfind_bound: "str_rfind s sep = Some i \<Longrightarrow> i \<le> length s"
  by (induction s arbitrary: i) (auto split: option.splits if_splits)

lemma os_path_join_suffix: "\<exists>pre. os_path_join a b = pre @ b"
  unfolding os_path_join_def
  by (metis append.assoc append_Nil)

lemma os_path_basename_no_slash: "CHR ''/'' \<notin> set (os_path_basename p)"
proof (induction p)
  case Nil
  show ?case by (simp add: os_path_basename_def)
next
  case (Cons c p)
  then show ?case
    by (auto simp: os_path_basename_def split: option.splits if_splits)
qed

lemma rsplit1_hd_subset: "set (hd (rsplit1 s sep)) \<subseteq> set s"
  by (auto simp: rsplit1_def split: option.splits dest: in_set_takeD)

lemma basename_no_slash: "CHR ''/'' \<notin> set x \<Longrightarrow> os_path_basename x = x"
  by (simp add: os_path_basename_def str_rfind_char_None)

lemma basename_after_slash: "CHR ''/'' \<notin> set x \<Longrightarrow> os_path_basename (y @ CHR ''/'' # x) = x"
  by (simp add: os_path_basename_def str_rfind_char_last)

lemma basename_join:
  assumes "CHR ''/'' \<notin> set x"
  shows "os_path_basename (os_path_join a x) = x"
proof -
  have np: "\<not> prefix ''/'' x" using assms by (cases x) auto
  show ?thesis
  proof (cases "a = [] \<or> suffix ''/'' a")
    case True
    then show ?thesis
    proof
      assume "a = []"
      then show ?thesis using np assms by (simp add: os_path_join_def basename_no_slash)
    next
      assume "suffix ''/'' a"
      then obtain y where "a = y @ ''/''" by (auto simp: suffix_def)
      then show ?thesis using np assms basename_after_slash [of x y]
        by (simp add: os_path_join_def)
    qed
  next
    case False
    then show ?thesis using np assms basename_after_slash [of x a]
      by (simp add: os_path_join_def)
  qed
qed

lemma dirname_dot_slash:
  assumes "CHR ''/'' \<notin> set x"
  shows "os_path_dirname (''./'' @ x) = ''.''"
proof -
  have "str_rfind (''.'' @ CHR ''/'' # x) ''/'' = Some (length ''.'')"
    using assms by (rule str_rfind_char_last)
  then show ?thesis by (simp add: os_path_dirname_def rstrip_slash_def)
qed

lemma archive_paths_shape:
  "\<exists>base. archive_paths e p = (base @ ''.epub'', base @ ''.zip'')"
proof -
  obtain a b where ab: "archive_paths e p = (a, b)" by (cases "archive_paths e p")
  obtain dir fname where
    a: "a = os_path_join dir (fname @ ''.epub'')" and b: "b = hd (rsplit1 a ''.epub'') @ ''.zip''"
    using ab by (auto simp: archive_paths_def Let_def)
  obtain pre where "a = pre @ fname @ ''.epub''" using a os_path_join_suffix by blast
  then have a': "a = (pre @ fname) @ ''.epub''" by simp
  have "b = (pre @ fname) @ ''.zip''" unfolding b a' rsplit1_suffix ..
  with a' ab show ?thesis by blast
qed

lemma archive_paths_default:
  assumes "p = None \<or> p = Some []" and "CHR ''/'' \<notin> set (title e)"
  shows "fst (archive_paths e p) = ''./'' @ hd (rsplit1 (title e) ''.epub'') @ ''.epub''"
proof -
  let ?stem = "hd (rsplit1 (title e) ''.epub'')"
  have "CHR ''/'' \<notin> set ?stem" using assms(2) rsplit1_hd_subset by fastforce
  then have "\<not> prefix ''/'' (?stem @ ''.epub'')" by (cases ?stem) auto
  then have "os_path_join ''.'' (?stem @ ''.epub'') = ''./'' @ ?stem @ ''.epub''"
    by (simp add: os_path_join_def suffix_def)
  then show ?thesis using assms(1) by (auto simp: archive_paths_def Let_def)
qed

lemma archive_paths_given:
  "os_path_basename (fst (archive_paths e (Some (c # cs))))
     = hd (rsplit1 (os_path_basename (c # cs)) ''.epub'') @ ''.epub''"
proof -
  let ?stem = "hd (rsplit1 (os_path_basename (c # cs)) ''.epub'')"
  have "CHR ''/'' \<notin> set ?stem"
    using os_path_basename_no_slash [of "c # cs"] rsplit1_hd_subset by fastforce
  then have "CHR ''/'' \<notin> set (?stem @ ''.epub'')" by simp
  from basename_join [OF this] show ?thesis by (simp add: archive_paths_def Let_def)
qed

lemma split_char_nonempty: "split_char c s \<noteq> []"
  by (induction s) (auto split: list.splits)

lemma split_char_no_sep: "c \<notin> set t \<Longrightarrow> split_char c t = [t]"
  by (induction t) auto

lemma split_char_append_no_sep:
  "c \<notin> set t \<Longrightarrow>
   split_char c (s @ t) = butlast (split_char c s) @ [last (split_char c s) @ t]"
proof (induction s)
  case Nil
  then show ?case by (simp add: split_char_no_sep)
next
  case (Cons x s)
  then show ?case
    using split_char_nonempty [of c s] split_char_nonempty [of c "s @ t"]
    by (cases "split_char c s") (auto split: list.splits)
qed

lemma split_char_sep_append: "split_char c (a @ c # b) = split_char c a @ split_char c b"
proof (induction a)
  case Nil
  show ?case by simp
next
  case (Cons x a)
  then show ?case
    using split_char_nonempty [of c a]
    by (cases "split_char c a") (auto split: list.splits)
qed

lemma split_char_fields: "x \<in> set (split_char c s) \<Longrightarrow> c \<notin> set x"
proof (induction s arbitrary: x)
  case Nil
  then show ?case by simp
next
  case (Cons y s)
  then show ?case
    by (cases "split_char c s") (auto split: if_splits)
qed

lemma norm_comps_append: "norm_comps acc (xs @ ys) = norm_comps (norm_comps acc xs) ys"
  by (induction xs arbitrary: acc) auto

lemma norm_comps_valid: "\<forall>x\<in>set xs. valid_name x \<Longrightarrow> norm_comps acc xs = acc @ xs"
  by (induction xs arbitrary: acc) (auto simp: valid_name_def)

lemma norm_comps_valid_result:
  "\<forall>x\<in>set acc. valid_name x \<Longrightarrow> \<forall>x\<in>set xs. CHR ''/'' \<notin> set x \<Longrightarrow>
   \<forall>x\<in>set (norm_comps acc xs). valid_name x"
proof (induction xs arbitrary: acc)
  case Nil
  then show ?case by simp
next
  case (Cons x xs)
  have rest: "\<forall>y\<in>set xs. CHR ''/'' \<notin> set y" using Cons.prems(2) by simp
  have b: "\<forall>y\<in>set (butlast acc). valid_name y"
    using Cons.prems(1) by (auto dest: in_set_butlastD)
  show ?case
  proof (cases "x = [] \<or> x = ''.''")
    case True
    then show ?thesis using Cons.IH [OF Cons.prems(1) rest] by auto
  next
    case False
    show ?thesis
    proof (cases "x = ''..''")
      case True
      then show ?thesis using Cons.IH [OF b rest] by simp
    next
      case notdd: False
      have "valid_name x" using False notdd Cons.prems(2) by (simp add: valid_name_def)
      then have "\<forall>y\<in>set (acc @ [x]). valid_name y" using Cons.prems(1) by simp
      from Cons.IH [OF this rest] show ?thesis using False notdd by simp
    qed
  qed
qed

text \<open>The path of a name with an extension: the same directory, whatever the extension.\<close>

lemma locate_with_ext:
  assumes "CHR ''/'' \<notin> set ext" and "2 < length ext" and "\<not> prefix ''/'' ext"
  shows "locate w (base @ ext)
           = norm_comps (if prefix ''/'' base then [] else cwd w)
               (butlast (split_char CHR ''/'' base))
             @ [last (split_char CHR ''/'' base) @ ext]"
proof -
  let ?l = "last (split_char CHR ''/'' base) @ ext"
  have p: "prefix ''/'' (base @ ext) = prefix ''/'' base"
    using assms(3) by (cases base) auto
  have l: "?l \<noteq> [] \<and> ?l \<noteq> ''.'' \<and> ?l \<noteq> ''..''"
  proof -
    have len: "2 < length ?l" using assms(2) by simp
    show ?thesis
    proof (intro conjI notI)
      assume "?l = []"
      with len show False by simp
    next
      assume "?l = ''.''"
      then have "length ?l = 1" by (simp only: list.size)
      with len show False by simp
    next
      assume "?l = ''..''"
      then have "length ?l = 2" by (simp only: list.size)
      with len show False by simp
    qed
  qed
  have "norm_comps a [?l] = a @ [?l]" for a using l by simp
  then show ?thesis
    unfolding locate_def p split_char_append_no_sep [OF assms(1)] norm_comps_append
    by simp
qed

lemma locate_epub_zip:
  "\<exists>X l. locate w (base @ ''.epub'') = X @ [l @ ''.epub''] \<and> locate w (base @ ''.zip'') = X @ [l @ ''.zip'']"
proof -
  have 1: "CHR ''/'' \<notin> set ''.epub''" "2 < length ''.epub''" "\<not> prefix ''/'' ''.epub''" by simp_all
  have 2: "CHR ''/'' \<notin> set ''.zip''" "2 < length ''.zip''" "\<not> prefix ''/'' ''.zip''" by simp_all
  show ?thesis
    unfolding locate_with_ext [OF 1] locate_with_ext [OF 2] by blast
qed

lemma archive_paths_locate:
  assumes "archive_paths e p = (fpath, fzip)"
  shows "fzip \<noteq> fpath \<and> \<not> prefix (locate w fpath) (locate w fzip)
       \<and> \<not> prefix (locate w fzip) (locate w fpath) \<and> locate w fzip \<noteq> []"
proof -
  from archive_paths_shape [of e p] assms obtain base
    where f: "fpath = base @ ''.epub''" "fzip = base @ ''.zip''" by auto
  from locate_epub_zip [of w base] obtain X l
    where l: "locate w fpath = X @ [l @ ''.epub'']" "locate w fzip = X @ [l @ ''.zip'']"
    unfolding f by blast
  show ?thesis unfolding l using f by simp
qed

subsection \<open>Writing a file leaves the rest of the tree alone\<close>

lemma lookup_write_node_other:
  "write_node t q d = Inr t' \<Longrightarrow> \<not> prefix p q \<Longrightarrow> lookup t' p = lookup t p"
proof (induction t q d arbitrary: t' p rule: write_node.induct)
  case (1 uu d)
  then show ?case by (cases p) auto
next
  case (2 uv d)
  then show ?case by simp
next
  case (3 uw c cs d)
  then show ?case by simp
next
  case (4 es c cs d)
  obtain c' ps where p: "p = c' # ps" using 4(3) by (cases p) auto
  show ?case
  proof (cases "map_of es c")
    case None
    with 4(2) have t': "t' = Dir (es @ [(c, File d)])" and cs: "cs = []"
      by (auto split: if_splits)
    show ?thesis
    proof (cases "c' = c")
      case True
      with 4(3) p cs have "ps \<noteq> []" by auto
      then show ?thesis using None True t' p by (cases ps) (auto simp: map_add_def)
    next
      case False
      then show ?thesis using t' p by (auto simp: map_add_def split: option.splits)
    qed
  next
    case (Some n)
    with 4(2) obtain n' where n': "write_node n cs d = Inr n'" and t': "t' = Dir (AList.update c n' es)"
      by (auto split: sum.splits)
    show ?thesis
    proof (cases "c' = c")
      case True
      with 4(3) p have "\<not> prefix ps cs" by simp
      from 4(1) [OF Some n' this] show ?thesis
        using True t' p Some by (simp add: AList.update_conv')
    next
      case False
      then show ?thesis using t' p by (simp add: AList.update_conv')
    qed
  qed
qed

lemma lookup_write_node_same:
  "write_node t q d = Inr t' \<Longrightarrow> lookup t' q = Some (File d)"
proof (induction t q d arbitrary: t' rule: write_node.induct)
  case (4 es c cs d)
  then show ?case
    by (auto simp: AList.update_conv' map_add_def split: option.splits sum.splits if_splits)
qed auto

section \<open>The archive and its name\<close>

lemma locate_cwd: "cwd w' = cwd w \<Longrightarrow> locate w' p = locate w p"
  by (simp add: locate_def)

lemma write_file_Inr:
  "write_file w p d = Inr w' \<Longrightarrow>
   cwd w' = cwd w \<and> write_node (root w) (locate w p) d = Inr (root w')"
  by (auto simp: write_file_def resolve_def split: sum.splits if_splits)

lemma write_file_lookup_other:
  "write_file w p d = Inr w' \<Longrightarrow> \<not> prefix q (locate w p) \<Longrightarrow>
   lookup (root w') q = lookup (root w) q"
  using lookup_write_node_other write_file_Inr by blast

lemma write_file_lookup_same:
  "write_file w p d = Inr w' \<Longrightarrow> lookup (root w') (locate w p) = Some (File d)"
  using lookup_write_node_same write_file_Inr by blast

lemma zip_write_handle:
  "zip_write z w file arcname m = Inr z' \<Longrightarrow> filename z' = filename z \<and> compression z' = compression z"
  by (auto simp: zip_write_def split: sum.splits option.splits node.splits)

lemma compress_files_handle:
  "compress_files z w dirpath relpath files = (r, z') \<Longrightarrow>
   filename z' = filename z \<and> compression z' = compression z"
proof (induction files arbitrary: z)
  case Nil
  then show ?case by simp
next
  case (Cons f files)
  show ?case
  proof (cases "zip_write z w (os_path_join dirpath f) (os_path_join relpath f)
                  (if f = ''mimetype'' then Some ZIP_STORED else None)")
    case (Inl e)
    with Cons.prems show ?thesis by (simp add: Let_def)
  next
    case (Inr z1)
    with Cons.prems have "compress_files z1 w dirpath relpath files = (r, z')" by (simp add: Let_def)
    from Cons.IH [OF this] zip_write_handle [OF Inr] show ?thesis by simp
  qed
qed

lemma compress_walk_handle:
  "compress_walk z w base entries = (r, z') \<Longrightarrow>
   filename z' = filename z \<and> compression z' = compression z"
proof (induction entries arbitrary: z)
  case Nil
  then show ?case by simp
next
  case (Cons entry entries)
  obtain dirpath subdirs files where e: "entry = (dirpath, subdirs, files)" by (cases entry) auto
  show ?case
  proof (cases "split1 dirpath base")
    case (Inl x)
    with Cons.prems e show ?thesis by simp
  next
    case parts: (Inr parts)
    show ?thesis
    proof (cases "py_index parts 1")
      case (Inl x)
      with Cons.prems e parts show ?thesis by simp
    next
      case (Inr relpath)
      obtain r1 z1 where f: "compress_files z w dirpath relpath files = (r1, z1)"
        by (cases "compress_files z w dirpath relpath files") auto
      note h = compress_files_handle [OF f]
      show ?thesis
      proof (cases r1)
        case (Inl x)
        with Cons.prems e parts Inr f h show ?thesis by simp
      next
        case inner: (Inr u)
        with Cons.prems e parts Inr f have "compress_walk z1 w base entries = (r, z')" by simp
        from Cons.IH [OF this] h show ?thesis by simp
      qed
    qed
  qed
qed

text \<open>The five ways out of \<open>compress\<close> once the layout exists.\<close>

lemma compress_cases:
  assumes "dirs self = Some d" and "archive_paths (epub self) p = (fpath, fzip)"
    and "compress self p w = (r, self', w')"
  obtains
    (open_fails) e where "r = Inl e" "w' = w"
  | (walk_fails) e zipf w1 zipf' where "r = Inl e"
      "ZipFile w fzip ZIP_DEFLATED = Inr (zipf, w1)"
      "w' = (case zip_close zipf' w1 of Inl _ \<Rightarrow> w1 | Inr w2 \<Rightarrow> w2)"
      "filename zipf' = fzip"
  | (close_fails) e zipf w1 where "r = Inl e"
      "ZipFile w fzip ZIP_DEFLATED = Inr (zipf, w1)" "w' = w1"
  | (rename_fails) e zipf w1 zipf' w2 where "r = Inl e"
      "ZipFile w fzip ZIP_DEFLATED = Inr (zipf, w1)"
      "filename zipf' = fzip"
      "zip_close zipf' w1 = Inr w2" "w' = w2"
  | (renamed) zipf w1 zipf' w2 where "r = Inr fpath"
      "ZipFile w fzip ZIP_DEFLATED = Inr (zipf, w1)"
      "compress_walk zipf w1 (basedir d) (os_walk w1 (basedir d)) = (Inr (), zipf')"
      "filename zipf' = fzip"
      "zip_close zipf' w1 = Inr w2"
      "os_rename w2 fzip fpath = Inr w'"
proof (cases "ZipFile w fzip ZIP_DEFLATED")
  case (Inl e)
  with assms have "r = Inl e" "w' = w" by (simp_all add: compress_def)
  then show ?thesis by (rule open_fails)
next
  case (Inr zw)
  obtain zipf w1 where zw: "zw = (zipf, w1)" by (cases zw) auto
  have fz: "filename zipf = fzip"
    using Inr zw by (auto simp: ZipFile_def split: sum.splits)
  obtain r1 zipf' where cw: "compress_walk zipf w1 (basedir d) (os_walk w1 (basedir d)) = (r1, zipf')"
    by (cases "compress_walk zipf w1 (basedir d) (os_walk w1 (basedir d))") auto
  have fz': "filename zipf' = fzip" using compress_walk_handle [OF cw] fz by simp
  show ?thesis
  proof (cases r1)
    case (Inl e)
    with assms Inr zw cw
    have "r = Inl e" "w' = (case zip_close zipf' w1 of Inl _ \<Rightarrow> w1 | Inr w2 \<Rightarrow> w2)"
      by (simp_all add: compress_def)
    then show ?thesis using Inr zw fz' by (rule_tac walk_fails) auto
  next
    case ok: (Inr u)
    show ?thesis
    proof (cases "zip_close zipf' w1")
      case (Inl e)
      with assms Inr zw cw ok have "r = Inl e" "w' = w1" by (simp_all add: compress_def)
      then show ?thesis using Inr zw by (rule_tac close_fails) auto
    next
      case closed: (Inr w2)
      show ?thesis
      proof (cases "os_rename w2 fzip fpath")
        case (Inl e)
        with assms Inr zw cw ok closed have "r = Inl e" "w' = w2" by (simp_all add: compress_def)
        then show ?thesis using Inr zw closed fz' by (rule_tac rename_fails) auto
      next
        case moved: (Inr w3)
        with assms Inr zw cw ok closed have "r = Inr fpath" "w' = w3" by (simp_all add: compress_def)
        then show ?thesis using Inr zw cw ok closed moved fz' by (rule_tac renamed) auto
      qed
    qed
  qed
qed

lemma ZipFile_Inr:
  "ZipFile w file m = Inr (zipf, w1) \<Longrightarrow>
   write_file w file (Archive []) = Inr w1 \<and> filename zipf = file \<and> compression zipf = m \<and> members zipf = []"
  by (auto simp: ZipFile_def split: sum.splits)

lemma os_rename_Inr:
  assumes "os_rename w src dst = Inr w'" and "locate w src \<noteq> locate w dst"
  shows "\<exists>d. lookup (root w) (locate w src) = Some (File d)
           \<and> write_node (remove_node (root w) (locate w src)) (locate w dst) d = Inr (root w')
           \<and> cwd w' = cwd w"
  using assms
  by (auto simp: os_rename_def split: if_splits option.splits node.splits sum.splits)

lemma compress_destination:
  assumes d: "dirs self = Some d" and ap: "archive_paths (epub self) p = (fpath, fzip)"
    and c: "compress self p w = (r, self', w')"
  shows "case r of
           Inl e \<Rightarrow> lookup (root w') (locate w fpath) = lookup (root w) (locate w fpath)
         | Inr out \<Rightarrow>
             out = fpath \<and> lookup (root w') (locate w fzip) = None
           \<and> (\<exists>zipf w1 zipf' w2.
                 ZipFile w fzip ZIP_DEFLATED = Inr (zipf, w1)
               \<and> compress_walk zipf w1 (basedir d) (os_walk w1 (basedir d)) = (Inr (), zipf')
               \<and> zip_close zipf' w1 = Inr w2
               \<and> lookup (root w2) (locate w fzip) = Some (File (Archive (members zipf')))
               \<and> lookup (root w2) (locate w fpath) = lookup (root w) (locate w fpath)
               \<and> os_rename w2 fzip fpath = Inr w'
               \<and> lookup (root w') (locate w fpath) = Some (File (Archive (members zipf'))))"
proof -
  let ?q = "locate w fpath" and ?qz = "locate w fzip"
  from archive_paths_locate [OF ap, of w]
  have ne: "fzip \<noteq> fpath" and n1: "\<not> prefix ?q ?qz" and n2: "\<not> prefix ?qz ?q" and n3: "?qz \<noteq> []"
    by simp_all
  have opened: "lookup (root w1) ?q = lookup (root w) ?q \<and> cwd w1 = cwd w"
    if "ZipFile w fzip ZIP_DEFLATED = Inr (zipf, w1)" for zipf w1
  proof -
    from ZipFile_Inr [OF that] have wf: "write_file w fzip (Archive []) = Inr w1" by simp
    from write_file_lookup_other [OF wf n1] write_file_Inr [OF wf] show ?thesis by simp
  qed
  have closed: "lookup (root w2) ?q = lookup (root w1) ?q \<and> cwd w2 = cwd w1
              \<and> lookup (root w2) ?qz = Some (File (Archive (members zipf')))"
    if "zip_close zipf' w1 = Inr w2" and "filename zipf' = fzip" and "cwd w1 = cwd w" for zipf' w1 w2
  proof -
    have wf: "write_file w1 fzip (Archive (members zipf')) = Inr w2"
      using that by (simp add: zip_close_def)
    have l: "locate w1 fzip = ?qz" using that(3) by (rule locate_cwd)
    from write_file_lookup_other [OF wf, of ?q] write_file_lookup_same [OF wf] write_file_Inr [OF wf] n1
    show ?thesis unfolding l by simp
  qed
  from d ap c show ?thesis
  proof (cases rule: compress_cases)
    case (open_fails e)
    then show ?thesis by simp
  next
    case (walk_fails e zipf w1 zipf')
    from opened [OF walk_fails(2)] have o: "lookup (root w1) ?q = lookup (root w) ?q" "cwd w1 = cwd w"
      by simp_all
    show ?thesis
    proof (cases "zip_close zipf' w1")
      case (Inl x)
      with walk_fails o show ?thesis by simp
    next
      case (Inr w2)
      from closed [OF Inr walk_fails(4) o(2)] walk_fails o Inr show ?thesis by simp
    qed
  next
    case (close_fails e zipf w1)
    with opened [OF close_fails(2)] show ?thesis by simp
  next
    case (rename_fails e zipf w1 zipf' w2)
    from opened [OF rename_fails(2)] have o: "lookup (root w1) ?q = lookup (root w) ?q" "cwd w1 = cwd w"
      by simp_all
    from closed [OF rename_fails(4) rename_fails(3) o(2)] rename_fails o show ?thesis by simp
  next
    case (renamed zipf w1 zipf' w2)
    from opened [OF renamed(2)] have o: "lookup (root w1) ?q = lookup (root w) ?q" "cwd w1 = cwd w"
      by simp_all
    from closed [OF renamed(5) renamed(4) o(2)]
    have cl: "lookup (root w2) ?q = lookup (root w1) ?q" "cwd w2 = cwd w1"
      "lookup (root w2) ?qz = Some (File (Archive (members zipf')))" by simp_all
    have lw2: "locate w2 fzip = ?qz" "locate w2 fpath = ?q"
      using cl(2) o(2) by (simp_all add: locate_def)
    have "locate w2 fzip \<noteq> locate w2 fpath" unfolding lw2 using n1 by auto
    from os_rename_Inr [OF renamed(6) this] cl(3)
    have mv: "write_node (remove_node (root w2) ?qz) ?q (Archive (members zipf')) = Inr (root w')"
      unfolding lw2 by auto
    have at_dest: "lookup (root w') ?q = Some (File (Archive (members zipf')))"
      using lookup_write_node_same [OF mv] .
    have "lookup (root w') ?qz = lookup (remove_node (root w2) ?qz) ?qz"
      using lookup_write_node_other [OF mv n2] .
    also have "\<dots> = None" using lookup_remove_node [OF n3, of "root w2" "[]"] by simp
    finally have gone: "lookup (root w') ?qz = None" .
    have "\<exists>zipf w1 zipf' w2.
                 ZipFile w fzip ZIP_DEFLATED = Inr (zipf, w1)
               \<and> compress_walk zipf w1 (basedir d) (os_walk w1 (basedir d)) = (Inr (), zipf')
               \<and> zip_close zipf' w1 = Inr w2
               \<and> lookup (root w2) (locate w fzip) = Some (File (Archive (members zipf')))
               \<and> lookup (root w2) (locate w fpath) = lookup (root w) (locate w fpath)
               \<and> os_rename w2 fzip fpath = Inr w'
               \<and> lookup (root w') (locate w fpath) = Some (File (Archive (members zipf')))"
      using renamed(2,3,5,6) cl(3) cl(1) o(1) at_dest by (intro exI conjI) simp_all
    with renamed(1) gone show ?thesis by simp
  qed
qed

text \<open>
  C6 (amended). The archive path always ends in \<open>.epub\<close>, and the temporary path is the
  same path with \<open>.zip\<close> in place of that ending, which names a different file. With
  no destination the path is \<open>os.path.join('.', stem + '.epub')\<close>, where the stem is the
  title up to its last occurrence of \<open>.epub\<close> (the whole title when there is none); the
  title is used as it is, and the path is \<open>./stem.epub\<close>, a file of the current
  directory, when the title contains no slash. With a destination the path is
  \<open>os.path.join(dirname, stem + '.epub')\<close> for the destination's directory and the stem
  of its file name, and that is the file name of the result. When \<open>compress\<close> raises,
  what is at the archive path is what was there before. When it returns, the result is the
  archive path; the whole archive was written under the temporary path while the archive
  path was untouched, and was then renamed: the archive is at the archive path and there is
  nothing left at the temporary path.
\<close>

theorem compress_archive_name:
  assumes "dirs self = Some d" and "archive_paths (epub self) p = (fpath, fzip)"
    and "compress self p w = (r, self', w')"
  shows "(\<exists>base. fpath = base @ ''.epub'' \<and> fzip = base @ ''.zip'')
       \<and> (p = None \<or> p = Some [] \<longrightarrow>
            fpath = os_path_join ''.'' (hd (rsplit1 (title (epub self)) ''.epub'') @ ''.epub'')
          \<and> (CHR ''/'' \<notin> set (title (epub self)) \<longrightarrow>
               fpath = ''./'' @ hd (rsplit1 (title (epub self)) ''.epub'') @ ''.epub''
             \<and> os_path_dirname fpath = ''.''))
       \<and> (\<forall>c cs. p = Some (c # cs) \<longrightarrow>
            fpath = os_path_join (os_path_dirname (c # cs))
                      (hd (rsplit1 (os_path_basename (c # cs)) ''.epub'') @ ''.epub'')
          \<and> os_path_basename fpath = hd (rsplit1 (os_path_basename (c # cs)) ''.epub'') @ ''.epub'')
       \<and> fzip \<noteq> fpath \<and> locate w fzip \<noteq> locate w fpath
       \<and> (case r of
             Inl e \<Rightarrow> lookup (root w') (locate w fpath) = lookup (root w) (locate w fpath)
           | Inr out \<Rightarrow>
               out = fpath \<and> lookup (root w') (locate w fzip) = None
             \<and> (\<exists>zipf w1 zipf' w2.
                   ZipFile w fzip ZIP_DEFLATED = Inr (zipf, w1)
                 \<and> compress_walk zipf w1 (basedir d) (os_walk w1 (basedir d)) = (Inr (), zipf')
                 \<and> zip_close zipf' w1 = Inr w2
                 \<and> lookup (root w2) (locate w fzip) = Some (File (Archive (members zipf')))
                 \<and> lookup (root w2) (locate w fpath) = lookup (root w) (locate w fpath)
                 \<and> os_rename w2 fzip fpath = Inr w'
                 \<and> lookup (root w') (locate w fpath) = Some (File (Archive (members zipf')))))"
proof -
  let ?e = "epub self"
  have shape: "\<exists>base. fpath = base @ ''.epub'' \<and> fzip = base @ ''.zip''"
    using archive_paths_shape [of ?e p] assms(2) by simp
  have fp: "fpath = fst (archive_paths ?e p)" using assms(2) by simp
  have dflt: "p = None \<or> p = Some [] \<longrightarrow>
            fpath = os_path_join ''.'' (hd (rsplit1 (title ?e) ''.epub'') @ ''.epub'')
          \<and> (CHR ''/'' \<notin> set (title ?e) \<longrightarrow>
               fpath = ''./'' @ hd (rsplit1 (title ?e) ''.epub'') @ ''.epub''
             \<and> os_path_dirname fpath = ''.'')"
  proof (intro impI conjI)
    assume p: "p = None \<or> p = Some []"
    then show "fpath = os_path_join ''.'' (hd (rsplit1 (title ?e) ''.epub'') @ ''.epub'')"
      unfolding fp by (auto simp: archive_paths_def Let_def)
    assume t: "CHR ''/'' \<notin> set (title ?e)"
    from archive_paths_default [OF p t]
    show f: "fpath = ''./'' @ hd (rsplit1 (title ?e) ''.epub'') @ ''.epub''" unfolding fp .
    have "CHR ''/'' \<notin> set (hd (rsplit1 (title ?e) ''.epub'') @ ''.epub'')"
      using t rsplit1_hd_subset [of "title ?e" "''.epub''"] by auto
    from dirname_dot_slash [OF this] show "os_path_dirname fpath = ''.''" unfolding f .
  qed
  have given: "\<forall>c cs. p = Some (c # cs) \<longrightarrow>
            fpath = os_path_join (os_path_dirname (c # cs))
                      (hd (rsplit1 (os_path_basename (c # cs)) ''.epub'') @ ''.epub'')
          \<and> os_path_basename fpath = hd (rsplit1 (os_path_basename (c # cs)) ''.epub'') @ ''.epub''"
  proof (intro allI impI conjI)
    fix c cs assume p: "p = Some (c # cs)"
    show "fpath = os_path_join (os_path_dirname (c # cs))
                      (hd (rsplit1 (os_path_basename (c # cs)) ''.epub'') @ ''.epub'')"
      unfolding fp p by (simp add: archive_paths_def Let_def)
    show "os_path_basename fpath = hd (rsplit1 (os_path_basename (c # cs)) ''.epub'') @ ''.epub''"
      unfolding fp p by (rule archive_paths_given)
  qed
  from archive_paths_locate [OF assms(2), of w]
  have ne: "fzip \<noteq> fpath" "locate w fzip \<noteq> locate w fpath" by auto
  show ?thesis
    by (intro conjI shape dflt given ne compress_destination [OF assms])
qed

theorem compress_archive_name_witness:
  "dirs (fst (snd ex_after_begin)) = Some ex_dirs
   \<and> archive_paths (epub (fst (snd ex_after_begin))) None = (''./T.epub'', ''./T.zip'')
   \<and> fst ex_compressed = Inr ''./T.epub''
   \<and> os_path_dirname ''./T.epub'' = ''.''
   \<and> lookup (root (snd (snd ex_compressed))) [''out'', ''T.zip''] = None"
proof -
  let ?self = "fst (snd ex_after_begin)" and ?w = "snd (snd ex_after_begin)"
  have h1: "dirs ?self = Some ex_dirs" unfolding ex_after_begin_def by code_simp
  have h2: "archive_paths (epub ?self) None = (''./T.epub'', ''./T.zip'')"
    unfolding ex_after_begin_def by code_simp
  have h3: "compress ?self None ?w = (fst ex_compressed, fst (snd ex_compressed), snd (snd ex_compressed))"
    by (simp add: ex_compressed_def)
  have r: "fst ex_compressed = Inr ''./T.epub''"
    unfolding ex_compressed_def ex_after_begin_def by code_simp
  have l: "locate ?w ''./T.zip'' = [''out'', ''T.zip'']"
    unfolding ex_after_begin_def by code_simp
  have t: "CHR ''/'' \<notin> set (title (epub ?self))"
    unfolding ex_after_begin_def by code_simp
  note res = compress_archive_name [OF h1 h2 h3]
  from res t have dn: "os_path_dirname ''./T.epub'' = ''.''" by blast
  from res have "case fst ex_compressed of
             Inl e \<Rightarrow> lookup (root (snd (snd ex_compressed))) (locate ?w ''./T.epub'')
                       = lookup (root ?w) (locate ?w ''./T.epub'')
           | Inr out \<Rightarrow>
               out = ''./T.epub'' \<and> lookup (root (snd (snd ex_compressed))) (locate ?w ''./T.zip'') = None
             \<and> (\<exists>zipf w1 zipf' w2.
                   ZipFile ?w ''./T.zip'' ZIP_DEFLATED = Inr (zipf, w1)
                 \<and> compress_walk zipf w1 (basedir ex_dirs) (os_walk w1 (basedir ex_dirs)) = (Inr (), zipf')
                 \<and> zip_close zipf' w1 = Inr w2
                 \<and> lookup (root w2) (locate ?w ''./T.zip'') = Some (File (Archive (members zipf')))
                 \<and> lookup (root w2) (locate ?w ''./T.epub'') = lookup (root ?w) (locate ?w ''./T.epub'')
                 \<and> os_rename w2 ''./T.zip'' ''./T.epub'' = Inr (snd (snd ex_compressed))
                 \<and> lookup (root (snd (snd ex_compressed))) (locate ?w ''./T.epub'')
                     = Some (File (Archive (members zipf'))))"
    by (elim conjE)
  then have g: "lookup (root (snd (snd ex_compressed))) [''out'', ''T.zip''] = None"
    unfolding r l by simp
  show ?thesis by (intro conjI h1 h2 r dn g)
qed

text \<open>
  C6 as stated fails for a title with a slash: nothing sanitizes the title, so the
  default path of the title \<open>a/b\<close> is \<open>./a/b.epub\<close>, a file of the directory \<open>./a\<close>,
  not of the current directory; in a working directory without a subdirectory \<open>a\<close>,
  \<open>compress\<close> raises \<open>FileNotFoundError\<close>.
\<close>

theorem compress_archive_name_counterexample:
  "fst (archive_paths ex_spec_slash None) = ''./a/b.epub''
   \<and> os_path_dirname (fst (archive_paths ex_spec_slash None)) = ''./a''
   \<and> fst (run_calls ex_globals [Begin, Compress None] (init ex_spec_slash ex_factory ''u'') ex_world)
       = [Inr (), Inl FileNotFoundError]"
  by code_simp

section \<open>The index after a failed chapter\<close>

lemma run_call_keeps:
  assumes "run_call g c self w = (r, self', w')" and "x \<in> set (chapters self)"
  shows "x \<in> set (chapters self')"
proof (cases c)
  case Begin
  with assms show ?thesis
    by (auto simp: forget_def split: prod.splits dest: begin_build_chapters)
next
  case (RenderChapter a ch)
  with assms show ?thesis
    by (auto simp: render_chapter_def Let_def split: prod.splits sum.splits option.splits)
next
  case Index
  with assms index_self [of g self w r self' w'] show ?thesis by simp
next
  case (Compress p)
  with assms show ?thesis
    by (auto simp: forget_def split: prod.splits dest: compress_self)
next
  case (Finalize p)
  with assms show ?thesis
    by (auto simp: forget_def split: prod.splits dest: finalize_self)
next
  case Cleanup
  with assms cleanup_chapters [of self w r self' w'] show ?thesis by simp
qed

lemma run_calls_keeps:
  "run_calls g cs self w = (rs, self', w') \<Longrightarrow> x \<in> set (chapters self) \<Longrightarrow>
   x \<in> set (chapters self')"
proof (induction cs arbitrary: self w rs)
  case Nil
  then show ?case by simp
next
  case (Cons c cs)
  obtain r s1 w1 where step: "run_call g c self w = (r, s1, w1)"
    by (cases "run_call g c self w") auto
  obtain rs1 s2 w2 where rest: "run_calls g cs s1 w1 = (rs1, s2, w2)"
    by (cases "run_calls g cs s1 w1") auto
  have fin: "rs = r # rs1 \<and> self' = s2 \<and> w' = w2"
    using Cons.prems(1) by (simp add: step rest)
  have rest': "run_calls g cs s1 w1 = (rs1, self', w')" using rest fin by simp
  from Cons.IH [OF rest' run_call_keeps [OF step Cons.prems(2)]] show ?case .
qed

lemma os_path_join_same_dir:
  assumes "\<not> prefix ''/'' b" and "\<not> prefix ''/'' b'"
  shows "\<exists>pre. os_path_join a b = pre @ b \<and> os_path_join a b' = pre @ b'"
proof (cases "a = [] \<or> suffix ''/'' a")
  case True
  with assms have "os_path_join a b = a @ b \<and> os_path_join a b' = a @ b'"
    by (simp add: os_path_join_def)
  then show ?thesis by blast
next
  case False
  with assms have "os_path_join a b = (a @ ''/'') @ b \<and> os_path_join a b' = (a @ ''/'') @ b'"
    by (simp add: os_path_join_def)
  then show ?thesis by blast
qed

lemma locate_ncx_opf:
  "\<exists>X l. locate w (base @ ''book.ncx'') = X @ [l @ ''book.ncx'']
       \<and> locate w (base @ ''book.opf'') = X @ [l @ ''book.opf'']"
proof -
  have 1: "CHR ''/'' \<notin> set ''book.ncx''" "2 < length ''book.ncx''" "\<not> prefix ''/'' ''book.ncx''"
    by simp_all
  have 2: "CHR ''/'' \<notin> set ''book.opf''" "2 < length ''book.opf''" "\<not> prefix ''/'' ''book.opf''"
    by simp_all
  show ?thesis
    unfolding locate_with_ext [OF 1] locate_with_ext [OF 2] by blast
qed

lemma render_template_dest:
  assumes "render_template g name into enc kw w = Inr w'"
  shows "\<exists>t content. jinja_env g name = Some t \<and> t kw = Inr content
       \<and> write_file w (os_path_join into (os_path_basename (hd (rsplit1 name ''.j2''))))
           (Data content) = Inr w'"
  using assms
  by (auto simp: render_template_def get_template_def Let_def split: option.splits sum.splits)

lemma index_name_ncx: "os_path_basename (hd (rsplit1 ''book.ncx.j2'' ''.j2'')) = ''book.ncx''"
proof -
  have "hd (rsplit1 (''book.ncx'' @ ''.j2'') ''.j2'') = ''book.ncx''" by (rule rsplit1_suffix)
  then have "hd (rsplit1 ''book.ncx.j2'' ''.j2'') = ''book.ncx''" by simp
  moreover have "os_path_basename ''book.ncx'' = ''book.ncx''" by (rule basename_no_slash) simp
  ultimately show ?thesis by (simp only:)
qed

lemma index_name_opf: "os_path_basename (hd (rsplit1 ''book.opf.j2'' ''.j2'')) = ''book.opf''"
proof -
  have "hd (rsplit1 (''book.opf'' @ ''.j2'') ''.j2'') = ''book.opf''" by (rule rsplit1_suffix)
  then have "hd (rsplit1 ''book.opf.j2'' ''.j2'') = ''book.opf''" by simp
  moreover have "os_path_basename ''book.opf'' = ''book.opf''" by (rule basename_no_slash) simp
  ultimately show ?thesis by (simp only:)
qed

text \<open>
  What \<open>index\<close> has done when it returns: both index files are in the \<open>OEBPS\<close>
  directory, each the rendering, by its template, of one dictionary whose \<open>chapters\<close>
  entry is the accumulator.
\<close>

lemma index_renders_accumulator:
  assumes "index g s w = (Inr u, s2, w3)"
  shows "\<exists>d kw tn topf ncx opf.
           dirs s = Some d
         \<and> map_of kw ''chapters'' = Some (VChapters (chapters s))
         \<and> jinja_env g ''book.ncx.j2'' = Some tn \<and> tn kw = Inr ncx
         \<and> read_file w3 (os_path_join (oebps d) ''book.ncx'') = Inr (Data ncx)
         \<and> jinja_env g ''book.opf.j2'' = Some topf \<and> topf kw = Inr opf
         \<and> read_file w3 (os_path_join (oebps d) ''book.opf'') = Inr (Data opf)"
proof -
  from assms obtain d where d: "dirs s = Some d"
    by (cases "dirs s") (simp_all add: index_def)
  from assms d obtain kw where kw: "index_kwargs s d w = Inr kw"
    by (cases "index_kwargs s d w") (simp_all add: index_def)
  from assms d kw obtain w1 where
    r1: "render_template g ''book.ncx.j2'' (oebps d) (encoding s) kw w = Inr w1"
    by (cases "render_template g ''book.ncx.j2'' (oebps d) (encoding s) kw w")
       (simp_all add: index_def)
  from assms d kw r1 have
    r2: "render_template g ''book.opf.j2'' (oebps d) (encoding s) kw w1 = Inr w3"
    by (cases "render_template g ''book.opf.j2'' (oebps d) (encoding s) kw w1")
       (simp_all add: index_def)
  have ch: "map_of kw ''chapters'' = Some (VChapters (chapters s))"
    using kw by (auto simp: index_kwargs_def split: sum.splits)
  from render_template_dest [OF r1] obtain tn ncx where
    tn: "jinja_env g ''book.ncx.j2'' = Some tn" "tn kw = Inr ncx"
    and wn: "write_file w (os_path_join (oebps d) ''book.ncx'') (Data ncx) = Inr w1"
    unfolding index_name_ncx by blast
  from render_template_dest [OF r2] obtain topf opf where
    tp: "jinja_env g ''book.opf.j2'' = Some topf" "topf kw = Inr opf"
    and wo: "write_file w1 (os_path_join (oebps d) ''book.opf'') (Data opf) = Inr w3"
    unfolding index_name_opf by blast
  have np: "\<not> prefix ''/'' ''book.ncx''" "\<not> prefix ''/'' ''book.opf''" by simp_all
  from os_path_join_same_dir [OF np, of "oebps d"] obtain pre where
    pn: "os_path_join (oebps d) ''book.ncx'' = pre @ ''book.ncx''"
    and po: "os_path_join (oebps d) ''book.opf'' = pre @ ''book.opf''" by blast
  have c1: "cwd w1 = cwd w" using write_file_Inr [OF wn] by simp
  have c3: "cwd w3 = cwd w1" using write_file_Inr [OF wo] by simp
  from locate_ncx_opf [of w pre] obtain X l where
    ln: "locate w (pre @ ''book.ncx'') = X @ [l @ ''book.ncx'']"
    and lo: "locate w (pre @ ''book.opf'') = X @ [l @ ''book.opf'']" by blast
  have lo1: "locate w1 (pre @ ''book.opf'') = X @ [l @ ''book.opf'']"
    using lo locate_cwd [OF c1] by simp
  have diff: "\<not> prefix (X @ [l @ ''book.ncx'']) (X @ [l @ ''book.opf''])" by simp
  have "lookup (root w1) (X @ [l @ ''book.ncx'']) = Some (File (Data ncx))"
    using write_file_lookup_same [OF wn] unfolding pn ln .
  moreover have "lookup (root w3) (X @ [l @ ''book.ncx'']) = lookup (root w1) (X @ [l @ ''book.ncx''])"
    using write_file_lookup_other [OF wo, of "X @ [l @ ''book.ncx'']"] diff
    unfolding po lo1 by simp
  ultimately have a: "lookup (root w3) (X @ [l @ ''book.ncx'']) = Some (File (Data ncx))" by simp
  have b: "lookup (root w3) (X @ [l @ ''book.opf'']) = Some (File (Data opf))"
    using write_file_lookup_same [OF wo] unfolding po lo1 .
  have l3: "locate w3 p = locate w p" for p
    using locate_cwd [of w3 w1 p] locate_cwd [of w1 w p] c1 c3 by simp
  have rn: "read_file w3 (os_path_join (oebps d) ''book.ncx'') = Inr (Data ncx)"
    unfolding pn using a by (simp add: read_file_def resolve_def l3 ln)
  have ro: "read_file w3 (os_path_join (oebps d) ''book.opf'') = Inr (Data opf)"
    unfolding po using b by (simp add: read_file_def resolve_def l3 lo)
  from d ch tn rn tp ro show ?thesis by blast
qed

text \<open>
  C10. After \<open>begin\<close>, whenever \<open>render_chapter\<close> raises (in the factory or in the file
  write) the pair has already been appended to the accumulator. It stays there through
  whatever calls follow, and an \<open>index\<close> that then returns has written \<open>book.ncx\<close> and
  \<open>book.opf\<close> as the renderings of a dictionary whose \<open>chapters\<close> entry lists the
  failed chapter.
\<close>

theorem failed_chapter_is_indexed:
  assumes "dirs self = Some d" and "template self = Some t"
    and "render_chapter self a chap w = (Inl e, self', w')"
  shows "chapters self' = chapters self @ [(a, chap)]
       \<and> (\<forall>cs rs s w2 u s2 w3.
            run_calls g cs self' w' = (rs, s, w2) \<and> index g s w2 = (Inr u, s2, w3) \<longrightarrow>
            (\<exists>d2 kw acc tn topf ncx opf.
               dirs s = Some d2
             \<and> map_of kw ''chapters'' = Some (VChapters acc) \<and> (a, chap) \<in> set acc
             \<and> jinja_env g ''book.ncx.j2'' = Some tn \<and> tn kw = Inr ncx
             \<and> read_file w3 (os_path_join (oebps d2) ''book.ncx'') = Inr (Data ncx)
             \<and> jinja_env g ''book.opf.j2'' = Some topf \<and> topf kw = Inr opf
             \<and> read_file w3 (os_path_join (oebps d2) ''book.opf'') = Inr (Data opf)))"
proof (intro conjI allI impI)
  show c: "chapters self' = chapters self @ [(a, chap)]"
    using assms by (auto simp: render_chapter_def Let_def split: prod.splits sum.splits)
  fix cs rs s w2 u s2 w3
  assume h: "run_calls g cs self' w' = (rs, s, w2) \<and> index g s w2 = (Inr u, s2, w3)"
  have "(a, chap) \<in> set (chapters self')" using c by simp
  with h have m: "(a, chap) \<in> set (chapters s)" using run_calls_keeps by blast
  from h index_renders_accumulator [of g s w2 u s2 w3] obtain d2 kw tn topf ncx opf where
    "dirs s = Some d2" "map_of kw ''chapters'' = Some (VChapters (chapters s))"
    "jinja_env g ''book.ncx.j2'' = Some tn" "tn kw = Inr ncx"
    "read_file w3 (os_path_join (oebps d2) ''book.ncx'') = Inr (Data ncx)"
    "jinja_env g ''book.opf.j2'' = Some topf" "topf kw = Inr opf"
    "read_file w3 (os_path_join (oebps d2) ''book.opf'') = Inr (Data opf)"
    by blast
  with m show "\<exists>d2 kw acc tn topf ncx opf.
               dirs s = Some d2
             \<and> map_of kw ''chapters'' = Some (VChapters acc) \<and> (a, chap) \<in> set acc
             \<and> jinja_env g ''book.ncx.j2'' = Some tn \<and> tn kw = Inr ncx
             \<and> read_file w3 (os_path_join (oebps d2) ''book.ncx'') = Inr (Data ncx)
             \<and> jinja_env g ''book.opf.j2'' = Some topf \<and> topf kw = Inr opf
             \<and> read_file w3 (os_path_join (oebps d2) ''book.opf'') = Inr (Data opf)"
    by blast
qed

theorem failed_chapter_is_indexed_witness:
  "dirs (fst (snd ex_listed_begin)) = Some ex_dirs
   \<and> fst ex_failed_render = Inl (Raised ''ConversionError'')
   \<and> fst ex_later = [Inr ()]
   \<and> fst ex_indexed = Inr ()
   \<and> read_file (snd (snd ex_indexed)) ''/tmp/t1/OEBPS/book.ncx'' = Inr (Data ''c1.xhtml;c2.xhtml;'')
   \<and> (\<exists>kw acc. map_of kw ''chapters'' = Some (VChapters acc)
         \<and> (ex_assign ''c1.xhtml'' 1, ex_empty_chapter) \<in> set acc
         \<and> ex_listing_template kw = Inr ''c1.xhtml;c2.xhtml;'')"
proof -
  let ?self = "fst (snd ex_listed_begin)" and ?w = "snd (snd ex_listed_begin)"
  let ?self' = "fst (snd ex_failed_render)" and ?w' = "snd (snd ex_failed_render)"
  have h1: "dirs ?self = Some ex_dirs" unfolding ex_listed_begin_def by code_simp
  have h2: "template ?self = Some ex_listing_template"
    unfolding ex_listed_begin_def
    by (simp add: begin_build_def init_def get_template_def ex_listing_globals_def Let_def
             split: prod.splits sum.splits option.splits)
  have r: "fst ex_failed_render = Inl (Raised ''ConversionError'')"
    unfolding ex_failed_render_def ex_listed_begin_def by code_simp
  have h3: "render_chapter ?self (ex_assign ''c1.xhtml'' 1) ex_empty_chapter ?w
              = (Inl (Raised ''ConversionError''), ?self', ?w')"
    unfolding r [symmetric] by (simp add: ex_failed_render_def)
  have l: "fst ex_later = [Inr ()]"
    unfolding ex_later_def ex_failed_render_def ex_listed_begin_def by code_simp
  have h4: "run_calls ex_listing_globals [RenderChapter (ex_assign ''c2.xhtml'' 2) ex_chapter] ?self' ?w'
              = (fst ex_later, fst (snd ex_later), snd (snd ex_later))"
    by (simp add: ex_later_def)
  have i: "fst ex_indexed = Inr ()"
    unfolding ex_indexed_def ex_later_def ex_failed_render_def ex_listed_begin_def by code_simp
  have h5: "index ex_listing_globals (fst (snd ex_later)) (snd (snd ex_later))
              = (Inr (), fst (snd ex_indexed), snd (snd ex_indexed))"
    unfolding i [symmetric] by (simp add: ex_indexed_def)
  have f: "read_file (snd (snd ex_indexed)) ''/tmp/t1/OEBPS/book.ncx'' = Inr (Data ''c1.xhtml;c2.xhtml;'')"
    unfolding ex_indexed_def ex_later_def ex_failed_render_def ex_listed_begin_def by code_simp
  have dl: "dirs (fst (snd ex_later)) = Some ex_dirs"
    unfolding ex_later_def ex_failed_render_def ex_listed_begin_def by code_simp
  have p: "os_path_join (oebps ex_dirs) ''book.ncx'' = ''/tmp/t1/OEBPS/book.ncx''"
    by code_simp
  from failed_chapter_is_indexed [OF h1 h2 h3, of ex_listing_globals] h4 h5
  obtain d2 kw acc tn ncx where
    d2: "dirs (fst (snd ex_later)) = Some d2"
    and kw: "map_of kw ''chapters'' = Some (VChapters acc)"
    and m: "(ex_assign ''c1.xhtml'' 1, ex_empty_chapter) \<in> set acc"
    and tn: "jinja_env ex_listing_globals ''book.ncx.j2'' = Some tn" "tn kw = Inr ncx"
    and rd: "read_file (snd (snd ex_indexed)) (os_path_join (oebps d2) ''book.ncx'') = Inr (Data ncx)"
    by blast
  from d2 dl have "d2 = ex_dirs" by simp
  with rd have "read_file (snd (snd ex_indexed)) ''/tmp/t1/OEBPS/book.ncx'' = Inr (Data ncx)"
    using p by (simp only:)
  with f have "ncx = ''c1.xhtml;c2.xhtml;''" by simp
  moreover from tn have "tn = ex_listing_template" by (simp add: ex_listing_globals_def)
  ultimately have "ex_listing_template kw = Inr ''c1.xhtml;c2.xhtml;''" using tn(2) by simp
  with kw m have e: "\<exists>kw acc. map_of kw ''chapters'' = Some (VChapters acc)
         \<and> (ex_assign ''c1.xhtml'' 1, ex_empty_chapter) \<in> set acc
         \<and> ex_listing_template kw = Inr ''c1.xhtml;c2.xhtml;''" by blast
  show ?thesis by (intro conjI h1 r l i f e)
qed

section \<open>The members of the archive\<close>

subsection \<open>Paths below the base directory\<close>

lemma valid_name_no_slash_prefix: "valid_name x \<Longrightarrow> \<not> prefix ''/'' x"
  by (cases x) (auto simp: valid_name_def)

lemma str_join_snoc:
  "str_join sep (xs @ [x]) = (if xs = [] then x else str_join sep xs @ sep @ x)"
  by (induction sep xs rule: str_join.induct) auto

lemma str_join_Cons:
  "str_join sep (x # xs) = x @ (if xs = [] then [] else sep @ str_join sep xs)"
  by (cases xs) simp_all

lemma str_join_nonempty: "xs \<noteq> [] \<Longrightarrow> \<forall>x\<in>set xs. valid_name x \<Longrightarrow> str_join ''/'' xs \<noteq> []"
  by (cases xs) (auto simp: valid_name_def str_join_Cons)

lemma str_join_last_char:
  "xs \<noteq> [] \<Longrightarrow> \<forall>x\<in>set xs. valid_name x \<Longrightarrow> \<not> suffix ''/'' (s @ str_join ''/'' xs)"
proof (induction xs rule: rev_induct)
  case Nil
  then show ?case by simp
next
  case (snoc x xs)
  then have x: "x \<noteq> []" "CHR ''/'' \<notin> set x" by (auto simp: valid_name_def)
  have lx: "last x \<in> set x" using x(1) by (rule last_in_set)
  have l: "last x \<noteq> CHR ''/''"
  proof
    assume "last x = CHR ''/''"
    with lx have "CHR ''/'' \<in> set x" by simp
    with x(2) show False by simp
  qed
  define pre where "pre = s @ (if xs = [] then [] else str_join ''/'' xs @ ''/'')"
  have p: "s @ str_join ''/'' (xs @ [x]) = pre @ x"
    by (simp add: str_join_snoc pre_def)
  show ?case
  proof
    assume "suffix ''/'' (s @ str_join ''/'' (xs @ [x]))"
    then obtain y where "pre @ x = y @ ''/''" unfolding p by (auto simp: suffix_def)
    then have "last (pre @ x) = CHR ''/''" by simp
    with x(1) l show False by simp
  qed
qed

lemma str_join_first_char:
  "xs \<noteq> [] \<Longrightarrow> \<forall>x\<in>set xs. valid_name x \<Longrightarrow>
   \<exists>c cs. str_join ''/'' xs = c # cs \<and> c \<noteq> CHR ''/''"
proof (cases xs)
  case Nil
  assume "xs \<noteq> []"
  with Nil show ?thesis by simp
next
  case (Cons x ys)
  assume "\<forall>x\<in>set xs. valid_name x"
  with Cons obtain c cs where "x = c # cs" "c \<noteq> CHR ''/''"
    by (cases x) (auto simp: valid_name_def)
  with Cons show ?thesis by (simp add: str_join_Cons)
qed


text \<open>The directory paths that \<open>os.walk\<close> builds below a base path.\<close>

lemma dirpath_of_shape:
  assumes "b \<noteq> []" and "\<forall>x\<in>set ds. valid_name x"
  shows "dirpath_of b ds =
           b @ (if ds = [] \<or> suffix ''/'' b then [] else ''/'') @ str_join ''/'' ds"
  using assms(2)
proof (induction ds rule: rev_induct)
  case Nil
  show ?case by (simp add: dirpath_of_def)
next
  case (snoc x ds)
  then have ih: "dirpath_of b ds = b @ (if ds = [] \<or> suffix ''/'' b then [] else ''/'') @ str_join ''/'' ds"
    and v: "valid_name x" and vs: "\<forall>x\<in>set ds. valid_name x" by simp_all
  have step: "dirpath_of b (ds @ [x]) = os_path_join (dirpath_of b ds) x"
    by (simp add: dirpath_of_def)
  have np: "\<not> prefix ''/'' x" using v by (rule valid_name_no_slash_prefix)
  show ?case
  proof (cases "ds = []")
    case True
    then show ?thesis using step np assms(1) by (simp add: dirpath_of_def os_path_join_def)
  next
    case False
    have "\<not> suffix ''/'' (dirpath_of b ds)"
      unfolding ih using str_join_last_char [OF False vs, of "b @ (if ds = [] \<or> suffix ''/'' b then [] else ''/'')"]
      by simp
    moreover have "dirpath_of b ds \<noteq> []" unfolding ih using assms(1) by simp
    ultimately have "os_path_join (dirpath_of b ds) x = dirpath_of b ds @ ''/'' @ x"
      using np by (simp add: os_path_join_def)
    then show ?thesis unfolding step using False ih by (simp add: str_join_snoc)
  qed
qed


lemma str_find_prefix: "prefix sep s \<Longrightarrow> str_find s sep = Some 0"
  by (cases s) auto

lemma relpath_of_dirpath:
  assumes "b \<noteq> []" and "\<forall>x\<in>set ds. valid_name x"
  shows "split1 (dirpath_of b ds) b =
           Inr [[], (if ds = [] \<or> suffix ''/'' b then [] else ''/'') @ str_join ''/'' ds]"
proof -
  have "prefix b (dirpath_of b ds)" unfolding dirpath_of_shape [OF assms] by simp
  from str_find_prefix [OF this] show ?thesis
    using assms(1) by (simp add: split1_def dirpath_of_shape [OF assms])
qed

text \<open>The name of a file of such a directory, relative to the base path.\<close>

lemma local_name:
  assumes "\<forall>x\<in>set ds. valid_name x" and "valid_name f"
  shows "os_path_join ((if ds = [] \<or> sl then [] else ''/'') @ str_join ''/'' ds) f
           = (if ds = [] \<or> sl then [] else ''/'') @ str_join ''/'' (ds @ [f])"
proof (cases "ds = []")
  case True
  then show ?thesis
    using valid_name_no_slash_prefix [OF assms(2)] by (simp add: os_path_join_def)
next
  case False
  let ?rel = "(if ds = [] \<or> sl then [] else ''/'') @ str_join ''/'' ds"
  have "\<not> suffix ''/'' ?rel" using str_join_last_char [OF False assms(1)] by blast
  moreover have "?rel \<noteq> []" using str_join_nonempty [OF False assms(1)] by simp
  ultimately show ?thesis
    using valid_name_no_slash_prefix [OF assms(2)] False
    by (simp add: os_path_join_def str_join_snoc)
qed

lemma split_char_str_join:
  "xs \<noteq> [] \<Longrightarrow> \<forall>x\<in>set xs. CHR ''/'' \<notin> set x \<Longrightarrow> split_char CHR ''/'' (str_join ''/'' xs) = xs"
proof (induction "''/''" xs rule: str_join.induct)
  case 1
  then show ?case by simp
next
  case (2 x)
  then show ?case by (simp add: split_char_no_sep)
next
  case (3 x y ys)
  then have "split_char CHR ''/'' (str_join ''/'' (y # ys)) = y # ys" by simp
  moreover have "split_char CHR ''/'' (x @ CHR ''/'' # str_join ''/'' (y # ys))
                 = split_char CHR ''/'' x @ split_char CHR ''/'' (str_join ''/'' (y # ys))"
    by (rule split_char_sep_append)
  ultimately show ?case using 3(3) by (simp add: split_char_no_sep)
qed

lemma normpath_comps_valid:
  "\<forall>x\<in>set xs. valid_name x \<Longrightarrow> normpath_comps i acc xs = acc @ xs"
  by (induction xs arbitrary: acc) (auto simp: valid_name_def)

lemma zip_arcname_local:
  assumes "xs \<noteq> []" and "\<forall>x\<in>set xs. valid_name x"
  shows "zip_arcname ((if lead then ''/'' else []) @ str_join ''/'' xs) = Inr (str_join ''/'' xs)"
proof -
  let ?s = "str_join ''/'' xs"
  from str_join_first_char [OF assms] obtain c cs where s: "?s = c # cs" and c: "c \<noteq> CHR ''/''"
    by blast
  have ns: "\<forall>x\<in>set xs. CHR ''/'' \<notin> set x" using assms(2) by (simp add: valid_name_def)
  have sp: "split_char CHR ''/'' ?s = xs" using split_char_str_join [OF assms(1) ns] .
  show ?thesis
  proof (cases lead)
    case True
    have "split_char CHR ''/'' (''/'' @ ?s) = [] # xs" using sp by simp
    then have "os_path_normpath (''/'' @ ?s) = ''/'' @ ?s"
      using s c by (simp add: os_path_normpath_def Let_def normpath_comps_valid [OF assms(2)])
    then show ?thesis using True s c by (simp add: zip_arcname_def)
  next
    case False
    have "os_path_normpath ?s = ?s"
      using s c sp by (simp add: os_path_normpath_def Let_def normpath_comps_valid [OF assms(2)])
    then show ?thesis using False s c by (simp add: zip_arcname_def)
  qed
qed

lemma locate_below:
  assumes "b \<noteq> []" and "cs \<noteq> []" and "\<forall>x\<in>set cs. valid_name x"
  shows "locate w (b @ (if suffix ''/'' b then [] else ''/'') @ str_join ''/'' cs) = locate w b @ cs"
proof -
  let ?S = "str_join ''/'' cs"
  let ?start = "if prefix ''/'' b then [] else cwd w"
  have ns: "\<forall>x\<in>set cs. CHR ''/'' \<notin> set x" using assms(3) by (simp add: valid_name_def)
  have sp: "split_char CHR ''/'' ?S = cs" using split_char_str_join [OF assms(2) ns] .
  have pre: "prefix ''/'' (b @ t) = prefix ''/'' b" for t using assms(1) by (cases b) auto
  show ?thesis
  proof (cases "suffix ''/'' b")
    case True
    then obtain b' where b: "b = b' @ ''/''" by (auto simp: suffix_def)
    have 1: "split_char CHR ''/'' b = split_char CHR ''/'' b' @ [[]]"
      unfolding b using split_char_sep_append [of "CHR ''/''" b' "[]"] by simp
    have 2: "split_char CHR ''/'' (b @ ?S) = split_char CHR ''/'' b' @ cs"
      unfolding b using split_char_sep_append [of "CHR ''/''" b' ?S] sp by simp
    have "locate w (b @ ?S) = norm_comps (norm_comps ?start (split_char CHR ''/'' b')) cs"
      unfolding locate_def pre 2 norm_comps_append ..
    also have "\<dots> = norm_comps ?start (split_char CHR ''/'' b') @ cs"
      using assms(3) by (rule norm_comps_valid)
    also have "norm_comps ?start (split_char CHR ''/'' b') = locate w b"
      unfolding locate_def 1 norm_comps_append by simp
    finally show ?thesis using True by simp
  next
    case False
    have 2: "split_char CHR ''/'' (b @ ''/'' @ ?S) = split_char CHR ''/'' b @ cs"
      using split_char_sep_append [of "CHR ''/''" b ?S] sp by simp
    have "locate w (b @ ''/'' @ ?S) = norm_comps (locate w b) cs"
      unfolding locate_def pre 2 norm_comps_append ..
    also have "\<dots> = locate w b @ cs" using assms(3) by (rule norm_comps_valid)
    finally show ?thesis using False by simp
  qed
qed

text \<open>The full path of a file of a walked directory.\<close>

lemma real_name:
  assumes "b \<noteq> []" and "\<forall>x\<in>set ds. valid_name x" and "valid_name f"
  shows "os_path_join (dirpath_of b ds) f
           = b @ (if suffix ''/'' b then [] else ''/'') @ str_join ''/'' (ds @ [f])"
proof -
  have np: "\<not> prefix ''/'' f" using assms(3) by (rule valid_name_no_slash_prefix)
  note shape = dirpath_of_shape [OF assms(1,2)]
  show ?thesis
  proof (cases "ds = []")
    case True
    then show ?thesis using np assms(1) by (simp add: dirpath_of_def os_path_join_def)
  next
    case False
    have "\<not> suffix ''/'' (dirpath_of b ds)"
      unfolding shape
      using str_join_last_char [OF False assms(2), of "b @ (if ds = [] \<or> suffix ''/'' b then [] else ''/'')"]
      by simp
    moreover have "dirpath_of b ds \<noteq> []" unfolding shape using assms(1) by simp
    ultimately have "os_path_join (dirpath_of b ds) f = dirpath_of b ds @ ''/'' @ f"
      using np by (simp add: os_path_join_def)
    then show ?thesis using False shape by (simp add: str_join_snoc)
  qed
qed

lemma lookup_append:
  "lookup t (p @ q) = (case lookup t p of None \<Rightarrow> None | Some n \<Rightarrow> lookup n q)"
  by (induction t p rule: lookup.induct) (auto split: option.splits)


text \<open>Writing one file of a walked directory into the archive.\<close>

lemma zip_write_file:
  assumes b: "b \<noteq> []" and ds: "\<forall>x\<in>set ds. valid_name x" and f: "valid_name f"
    and at: "lookup (root w) (locate w b @ ds @ [f]) = Some (File c)"
    and rel: "relpath = (if ds = [] \<or> suffix ''/'' b then [] else ''/'') @ str_join ''/'' ds"
  shows "zip_write z w (os_path_join (dirpath_of b ds) f) (os_path_join relpath f)
           (if f = ''mimetype'' then Some ZIP_STORED else None)
         = (case (if locate w b @ ds @ [f] = locate w (filename z) then self_copy w (members z)
                  else Some c) of
              None \<Rightarrow> Inl OSError
            | Some c' \<Rightarrow>
                Inr (z\<lparr>members := members z @ [member_of (compression z) (ds @ [f], c')]\<rparr>))"
proof -
  have v: "\<forall>x\<in>set (ds @ [f]). valid_name x" using ds f by simp
  have real: "os_path_join (dirpath_of b ds) f
                = b @ (if suffix ''/'' b then [] else ''/'') @ str_join ''/'' (ds @ [f])"
    using real_name [OF b ds f] .
  have ne: "os_path_join (dirpath_of b ds) f \<noteq> []" unfolding real using b by simp
  have loc: "locate w (os_path_join (dirpath_of b ds) f) = locate w b @ ds @ [f]"
    unfolding real using locate_below [OF b _ v, of w] by simp
  have "os_path_join relpath f
          = (if ds = [] \<or> suffix ''/'' b then [] else ''/'') @ str_join ''/'' (ds @ [f])"
    unfolding rel using local_name [OF ds f] .
  then have "os_path_join relpath f
          = (if \<not> (ds = [] \<or> suffix ''/'' b) then ''/'' else []) @ str_join ''/'' (ds @ [f])"
    by simp
  then have arc: "zip_arcname (os_path_join relpath f) = Inr (str_join ''/'' (ds @ [f]))"
    using zip_arcname_local [OF _ v, of "\<not> (ds = [] \<or> suffix ''/'' b)"] by simp
  show ?thesis
    using ne loc at arc
    by (simp add: zip_write_def resolve_def member_of_def split: option.splits)
qed

lemma is_member_member_of:
  "c' = c \<or> p = own \<Longrightarrow> is_member own m (member_of m (p, c')) (p, c)"
  by (auto simp: is_member_def member_of_def)

subsection \<open>The listing of a directory\<close>

lemma scandir_mset: "mset (scandir w es) = mset es"
  by (simp add: scandir_def Let_def)

lemma scandir_set: "set (scandir w es) = set es"
  using scandir_mset [of w es] by (rule mset_eq_setD)

lemma scandir_cong: "listing_order w' = listing_order w \<Longrightarrow> scandir w' es = scandir w es"
  by (simp add: scandir_def)

lemma walk_files_cong:
  "listing_order w' = listing_order w \<Longrightarrow> walk_files w' ds n = walk_files w ds n"
proof (induction n arbitrary: ds)
  case (File c)
  show ?case by simp
next
  case (Dir es)
  have sub: "walk_files w' (ds @ [fst e]) (snd e) = walk_files w (ds @ [fst e]) (snd e)"
    if "e \<in> set (scandir w es)" for e
  proof -
    have 1: "e \<in> set es" using that by (simp add: scandir_set)
    have 2: "snd e \<in> Basic_BNFs.snds e" by (cases e) simp
    from Dir.IH [OF 1 2 Dir.prems] show ?thesis .
  qed
  have m: "map (\<lambda>e. walk_files w' (ds @ [fst e]) (snd e)) (scandir w es)
          = map (\<lambda>e. walk_files w (ds @ [fst e]) (snd e)) (scandir w es)"
    by (rule map_cong) (simp_all add: sub)
  show ?case by (simp only: walk_files.simps scandir_cong [OF Dir.prems] m)
qed

lemma write_file_order:
  "write_file w p d = Inr w' \<Longrightarrow> listing_order w' = listing_order w \<and> self_copy w' = self_copy w"
  by (auto simp: write_file_def resolve_def split: sum.splits if_splits)

subsection \<open>The walk\<close>

lemma compress_files_direct:
  assumes b: "b \<noteq> []" and ds: "\<forall>x\<in>set ds. valid_name x"
    and rel: "relpath = (if ds = [] \<or> suffix ''/'' b then [] else ''/'') @ str_join ''/'' ds"
    and own: "\<And>r. locate w b @ r = qz \<Longrightarrow> r = own"
  shows "\<forall>e\<in>set xs. valid_name (fst e) \<and> \<not> is_dir (snd e)
                   \<and> lookup (root w) (locate w b @ ds @ [fst e]) = Some (snd e) \<Longrightarrow>
         locate w (filename z) = qz \<Longrightarrow>
         compress_files z w (dirpath_of b ds) relpath (map fst xs) = (Inr u, z') \<Longrightarrow>
         \<exists>ms. z' = z\<lparr>members := members z @ ms\<rparr>
            \<and> list_all2 (is_member own (compression z)) ms
                (map (\<lambda>e. (ds @ [fst e], file_content (snd e))) xs)"
proof (induction xs arbitrary: z)
  case Nil
  then have "z' = z\<lparr>members := members z @ []\<rparr>" by simp
  then show ?case by (intro exI [of _ "[]"]) simp
next
  case (Cons e xs)
  obtain c where c: "snd e = File c" using Cons.prems(1) by (cases "snd e") auto
  have f: "valid_name (fst e)" using Cons.prems(1) by simp
  have at: "lookup (root w) (locate w b @ ds @ [fst e]) = Some (File c)"
    using Cons.prems(1) c by simp
  let ?res = "zip_write z w (os_path_join (dirpath_of b ds) (fst e)) (os_path_join relpath (fst e))
              (if fst e = ''mimetype'' then Some ZIP_STORED else None)"
  let ?read = "if locate w b @ ds @ [fst e] = locate w (filename z) then self_copy w (members z)
               else Some c"
  have res: "?res = (case ?read of
                       None \<Rightarrow> Inl OSError
                     | Some c' \<Rightarrow>
                         Inr (z\<lparr>members := members z @
                                [member_of (compression z) (ds @ [fst e], c')]\<rparr>))"
    using zip_write_file [OF b ds f at rel] .
  from Cons.prems(3) obtain z1 where z1: "?res = Inr z1"
    and next1: "compress_files z1 w (dirpath_of b ds) relpath (map fst xs) = (Inr u, z')"
    by (cases ?res) (simp_all add: Let_def)
  from res z1 obtain c' where rd: "?read = Some c'"
    and z1': "z1 = z\<lparr>members := members z @ [member_of (compression z) (ds @ [fst e], c')]\<rparr>"
    by (cases ?read) simp_all
  have "c' = c \<or> ds @ [fst e] = own"
  proof (cases "locate w b @ ds @ [fst e] = locate w (filename z)")
    case True
    then have "locate w b @ (ds @ [fst e]) = qz" using Cons.prems(2) by simp
    then show ?thesis using own by blast
  next
    case False
    with rd show ?thesis by simp
  qed
  then have m: "is_member own (compression z) (member_of (compression z) (ds @ [fst e], c'))
                  (ds @ [fst e], c)"
    by (rule is_member_member_of)
  have rest: "\<forall>e\<in>set xs. valid_name (fst e) \<and> \<not> is_dir (snd e)
                   \<and> lookup (root w) (locate w b @ ds @ [fst e]) = Some (snd e)"
    using Cons.prems(1) by simp
  have h1: "locate w (filename z1) = qz" using Cons.prems(2) z1' by simp
  from Cons.IH [OF rest h1 next1] obtain ms where
    zz: "z' = z1\<lparr>members := members z1 @ ms\<rparr>"
    and all: "list_all2 (is_member own (compression z1)) ms
                (map (\<lambda>e. (ds @ [fst e], file_content (snd e))) xs)"
    by blast
  have cz: "compression z1 = compression z" using z1' by simp
  have "z' = z\<lparr>members := members z @ (member_of (compression z) (ds @ [fst e], c') # ms)\<rparr>"
    using zz z1' by simp
  moreover have "list_all2 (is_member own (compression z))
                   (member_of (compression z) (ds @ [fst e], c') # ms)
                   (map (\<lambda>e. (ds @ [fst e], file_content (snd e))) (e # xs))"
    using all m c cz by simp
  ultimately show ?case by blast
qed

lemma compress_walk_step:
  assumes "compress_walk z w b ((dirpath, subdirs, files) # rest) = (Inr u, z')"
    and "split1 dirpath b = Inr parts" and "py_index parts 1 = Inr relpath"
  shows "\<exists>v z1. compress_files z w dirpath relpath files = (Inr v, z1)
              \<and> compress_walk z1 w b rest = (Inr u, z')"
  using assms by (auto split: prod.splits sum.splits)

lemma compress_walk_children:
  assumes "\<And>e z rest. e \<in> set xs \<Longrightarrow> locate w (filename z) = qz \<Longrightarrow>
             compress_walk z w b (walk_node w (dirpath_of b (ds @ [fst e])) (snd e) @ rest)
               = (Inr u, z') \<Longrightarrow>
             \<exists>ms. list_all2 (is_member own (compression z)) ms (walk_files w (ds @ [fst e]) (snd e))
                \<and> compress_walk (z\<lparr>members := members z @ ms\<rparr>) w b rest = (Inr u, z')"
  shows "locate w (filename z) = qz \<Longrightarrow>
         compress_walk z w b
           (concat (map (\<lambda>e. walk_node w (dirpath_of b (ds @ [fst e])) (snd e)) xs) @ rest)
           = (Inr u, z') \<Longrightarrow>
         \<exists>ms. list_all2 (is_member own (compression z)) ms
                (concat (map (\<lambda>e. walk_files w (ds @ [fst e]) (snd e)) xs))
            \<and> compress_walk (z\<lparr>members := members z @ ms\<rparr>) w b rest = (Inr u, z')"
  using assms
proof (induction xs arbitrary: z)
  case Nil
  then have "compress_walk (z\<lparr>members := members z @ []\<rparr>) w b rest = (Inr u, z')" by simp
  then show ?case by (intro exI [of _ "[]"]) simp
next
  case (Cons e xs)
  let ?tail = "concat (map (\<lambda>e. walk_node w (dirpath_of b (ds @ [fst e])) (snd e)) xs) @ rest"
  have "compress_walk z w b (walk_node w (dirpath_of b (ds @ [fst e])) (snd e) @ ?tail) = (Inr u, z')"
    using Cons.prems(2) by simp
  from Cons.prems(3) [OF _ Cons.prems(1) this] obtain ms1 where
    a1: "list_all2 (is_member own (compression z)) ms1 (walk_files w (ds @ [fst e]) (snd e))"
    and n1: "compress_walk (z\<lparr>members := members z @ ms1\<rparr>) w b ?tail = (Inr u, z')"
    by auto
  let ?z1 = "z\<lparr>members := members z @ ms1\<rparr>"
  have h1: "locate w (filename ?z1) = qz" using Cons.prems(1) by simp
  have sub: "\<exists>ms. list_all2 (is_member own (compression z0)) ms (walk_files w (ds @ [fst e0]) (snd e0))
                \<and> compress_walk (z0\<lparr>members := members z0 @ ms\<rparr>) w b rest0 = (Inr u, z')"
    if "e0 \<in> set xs" "locate w (filename z0) = qz"
       "compress_walk z0 w b (walk_node w (dirpath_of b (ds @ [fst e0])) (snd e0) @ rest0) = (Inr u, z')"
    for e0 z0 rest0
    using Cons.prems(3) [of e0 z0 rest0] that by simp
  from Cons.IH [OF h1 n1 sub] obtain ms2 where
    a2: "list_all2 (is_member own (compression ?z1)) ms2
           (concat (map (\<lambda>e. walk_files w (ds @ [fst e]) (snd e)) xs))"
    and n2: "compress_walk (?z1\<lparr>members := members ?z1 @ ms2\<rparr>) w b rest = (Inr u, z')"
    by blast
  have "list_all2 (is_member own (compression z)) (ms1 @ ms2)
          (concat (map (\<lambda>e. walk_files w (ds @ [fst e]) (snd e)) (e # xs)))"
    using a1 a2 by (simp add: list_all2_appendI)
  moreover have "compress_walk (z\<lparr>members := members z @ (ms1 @ ms2)\<rparr>) w b rest = (Inr u, z')"
    using n2 by simp
  ultimately show ?case by blast
qed

lemma dirpath_of_snoc: "os_path_join (dirpath_of b ds) x = dirpath_of b (ds @ [x])"
  by (simp add: dirpath_of_def)

lemma compress_walk_node:
  assumes b: "b \<noteq> []" and own: "\<And>r. locate w b @ r = qz \<Longrightarrow> r = own"
  shows "wf_node n \<Longrightarrow> \<forall>x\<in>set ds. valid_name x \<Longrightarrow>
         lookup (root w) (locate w b @ ds) = Some n \<Longrightarrow>
         locate w (filename z) = qz \<Longrightarrow>
         compress_walk z w b (walk_node w (dirpath_of b ds) n @ rest) = (Inr u, z') \<Longrightarrow>
         \<exists>ms. list_all2 (is_member own (compression z)) ms (walk_files w ds n)
            \<and> compress_walk (z\<lparr>members := members z @ ms\<rparr>) w b rest = (Inr u, z')"
proof (induction n arbitrary: ds z rest)
  case (File c)
  then have "compress_walk (z\<lparr>members := members z @ []\<rparr>) w b rest = (Inr u, z')" by simp
  then show ?case by (intro exI [of _ "[]"]) simp
next
  case (Dir es)
  let ?dp = "dirpath_of b ds"
  let ?rel = "(if ds = [] \<or> suffix ''/'' b then [] else ''/'') @ str_join ''/'' ds"
  let ?xs = "scandir w es"
  let ?fs = "filter (\<lambda>e. \<not> is_dir (snd e)) ?xs"
  let ?tail = "concat (map (\<lambda>e. walk_node w (dirpath_of b (ds @ [fst e])) (snd e)) ?xs) @ rest"
  have dist: "distinct (map fst es)" and ok: "\<forall>e\<in>set es. valid_name (fst e) \<and> wf_node (snd e)"
    using Dir.prems(1) by simp_all
  have child: "lookup (root w) (locate w b @ ds @ [fst e]) = Some (snd e)" if "e \<in> set es" for e
  proof -
    have "map_of es (fst e) = Some (snd e)" using dist that by simp
    then show ?thesis
      using Dir.prems(3) lookup_append [of "root w" "locate w b @ ds" "[fst e]"] by simp
  qed
  have fsok: "\<forall>e\<in>set ?fs. valid_name (fst e) \<and> \<not> is_dir (snd e)
                   \<and> lookup (root w) (locate w b @ ds @ [fst e]) = Some (snd e)"
    using ok child by (simp add: scandir_set)
  have whole: "compress_walk z w b
                 ((?dp, map fst (filter (\<lambda>e. is_dir (snd e)) ?xs), map fst ?fs) # ?tail) = (Inr u, z')"
    using Dir.prems(5) by (simp add: dirpath_of_snoc)
  have sp: "split1 ?dp b = Inr [[], ?rel]" using relpath_of_dirpath [OF b Dir.prems(2)] .
  have ix: "py_index [[], ?rel] 1 = Inr ?rel" by (simp add: py_index_def)
  from compress_walk_step [OF whole sp ix] obtain v z1 where
    direct: "compress_files z w ?dp ?rel (map fst ?fs) = (Inr v, z1)"
    and below: "compress_walk z1 w b ?tail = (Inr u, z')" by blast
  from compress_files_direct [OF b Dir.prems(2) refl own fsok Dir.prems(4) direct]
  obtain ms1 where z1: "z1 = z\<lparr>members := members z @ ms1\<rparr>"
    and a1: "list_all2 (is_member own (compression z)) ms1
               (map (\<lambda>e. (ds @ [fst e], file_content (snd e))) ?fs)"
    by blast
  have h1: "locate w (filename z1) = qz" using Dir.prems(4) z1 by simp
  have sub: "\<exists>ms. list_all2 (is_member own (compression z0)) ms (walk_files w (ds @ [fst e]) (snd e))
                \<and> compress_walk (z0\<lparr>members := members z0 @ ms\<rparr>) w b rest0 = (Inr u, z')"
    if "e \<in> set ?xs" "locate w (filename z0) = qz"
       "compress_walk z0 w b (walk_node w (dirpath_of b (ds @ [fst e])) (snd e) @ rest0) = (Inr u, z')"
    for e z0 rest0
  proof -
    have 0: "e \<in> set es" using that(1) by (simp add: scandir_set)
    have 1: "snd e \<in> Basic_BNFs.snds e" by (cases e) simp
    have 2: "wf_node (snd e)" using ok 0 by simp
    have 3: "\<forall>x\<in>set (ds @ [fst e]). valid_name x" using Dir.prems(2) ok 0 by simp
    have 4: "lookup (root w) (locate w b @ ds @ [fst e]) = Some (snd e)" using child [OF 0] .
    have 5: "lookup (root w) (locate w b @ (ds @ [fst e])) = Some (snd e)" using 4 by simp
    from Dir.IH [OF 0 1 2 3 5 that(2) that(3)] show ?thesis .
  qed
  from compress_walk_children [of ?xs w qz b ds u z' own z1 rest, OF sub h1 below]
  obtain ms2 where
    a2: "list_all2 (is_member own (compression z1)) ms2
           (concat (map (\<lambda>e. walk_files w (ds @ [fst e]) (snd e)) ?xs))"
    and n2: "compress_walk (z1\<lparr>members := members z1 @ ms2\<rparr>) w b rest = (Inr u, z')"
    by blast
  have cz: "compression z1 = compression z" using z1 by simp
  have "list_all2 (is_member own (compression z)) (ms1 @ ms2) (walk_files w ds (Dir es))"
    using a1 a2 cz by (simp add: list_all2_appendI)
  moreover have "compress_walk (z\<lparr>members := members z @ (ms1 @ ms2)\<rparr>) w b rest = (Inr u, z')"
    using n2 z1 by simp
  ultimately show ?case by blast
qed

lemma compress_walk_base:
  assumes "b \<noteq> []" and "wf_node n" and "lookup (root w) (locate w b) = Some n"
    and "compress_walk z w b (os_walk w b) = (Inr u, z')"
  shows "\<exists>ms. z' = z\<lparr>members := members z @ ms\<rparr>
            \<and> list_all2 (is_member (if prefix (locate w b) (locate w (filename z))
                                     then drop (length (locate w b)) (locate w (filename z))
                                     else []) (compression z))
                ms (walk_files w [] n)"
proof -
  let ?own = "if prefix (locate w b) (locate w (filename z))
              then drop (length (locate w b)) (locate w (filename z)) else []"
  have ow: "os_walk w b = walk_node w (dirpath_of b []) n @ []"
    using assms(1,3) by (simp add: os_walk_def resolve_def dirpath_of_def)
  have own: "r = ?own" if "locate w b @ r = locate w (filename z)" for r
    using that [symmetric] by simp
  have l: "lookup (root w) (locate w b @ []) = Some n" using assms(3) by simp
  have v: "\<forall>x\<in>set ([] :: string list). valid_name x" by simp
  have c: "compress_walk z w b (walk_node w (dirpath_of b []) n @ []) = (Inr u, z')"
    using assms(4) ow by simp
  from compress_walk_node [OF assms(1) own assms(2) v l refl c] show ?thesis by auto
qed

subsection \<open>Well-formed trees\<close>

lemma set_update_subset: "set (AList.update k v al) \<subseteq> insert (k, v) (set al)"
  by (induction al) auto

lemma write_node_wf:
  "wf_node t \<Longrightarrow> \<forall>c\<in>set q. valid_name c \<Longrightarrow> write_node t q d = Inr t' \<Longrightarrow> wf_node t'"
proof (induction t q d arbitrary: t' rule: write_node.induct)
  case (1 uu d)
  then show ?case by auto
next
  case (2 uv d)
  then show ?case by simp
next
  case (3 uw c cs d)
  then show ?case by simp
next
  case (4 es c cs d)
  have dist: "distinct (map fst es)" and ok: "\<forall>e\<in>set es. valid_name (fst e) \<and> wf_node (snd e)"
    using 4(2) by simp_all
  have vc: "valid_name c" and vcs: "\<forall>c\<in>set cs. valid_name c" using 4(3) by simp_all
  show ?case
  proof (cases "map_of es c")
    case None
    with 4(4) have t': "t' = Dir (es @ [(c, File d)])" by (auto split: if_splits)
    have "c \<notin> set (map fst es)" using None by (simp add: map_of_eq_None_iff)
    then show ?thesis unfolding t' using dist ok vc by auto
  next
    case (Some n)
    with 4(4) obtain n' where n': "write_node n cs d = Inr n'" and t': "t' = Dir (AList.update c n' es)"
      by (auto split: sum.splits)
    have "(c, n) \<in> set es" using Some by (rule map_of_SomeD)
    then have "wf_node n" using ok by auto
    from 4(1) [OF Some this vcs n'] have wn: "wf_node n'" .
    have keys: "map fst (AList.update c n' es) = map fst es"
      using \<open>(c, n) \<in> set es\<close> by (force simp: AList.update_keys)
    have "\<forall>e\<in>set (AList.update c n' es). valid_name (fst e) \<and> wf_node (snd e)"
    proof
      fix e assume "e \<in> set (AList.update c n' es)"
      then have "e \<in> set es \<or> e = (c, n')" using set_update_subset [of c n' es] by auto
      then show "valid_name (fst e) \<and> wf_node (snd e)" using ok wn vc by auto
    qed
    then show ?thesis unfolding t' using dist keys by simp
  qed
qed

lemma locate_valid:
  assumes "\<forall>c\<in>set (cwd w). valid_name c"
  shows "\<forall>c\<in>set (locate w p). valid_name c"
proof -
  have "\<forall>x\<in>set (split_char CHR ''/'' p). CHR ''/'' \<notin> set x"
    using split_char_fields by blast
  moreover have "\<forall>x\<in>set (if prefix ''/'' p then [] else cwd w). valid_name x"
    using assms by simp
  ultimately show ?thesis unfolding locate_def by (rule norm_comps_valid_result [rotated])
qed

lemma write_file_wf:
  assumes "wf_world w" and "write_file w p d = Inr w'"
  shows "wf_world w'"
proof -
  from write_file_Inr [OF assms(2)]
  have c: "cwd w' = cwd w" and n: "write_node (root w) (locate w p) d = Inr (root w')" by simp_all
  have "wf_node (root w')"
    using write_node_wf [OF _ locate_valid n] assms(1) by (simp add: wf_world_def)
  then show ?thesis using assms(1) c by (simp add: wf_world_def)
qed

lemma lookup_wf: "wf_node t \<Longrightarrow> lookup t p = Some n \<Longrightarrow> wf_node n"
proof (induction t p rule: lookup.induct)
  case (1 n)
  then show ?case by simp
next
  case (2 uu c cs)
  then show ?case by simp
next
  case (3 es c cs)
  then obtain m where m: "map_of es c = Some m" and l: "lookup m cs = Some n"
    by (auto split: option.splits)
  have "(c, m) \<in> set es" using m by (rule map_of_SomeD)
  then have "wf_node m" using 3(2) by auto
  from 3(1) [OF m this l] show ?case .
qed

lemma walk_files_paths:
  "wf_node n \<Longrightarrow> \<forall>x\<in>set ds. valid_name x \<Longrightarrow>
   \<forall>pd\<in>set (walk_files w ds n). fst pd \<noteq> [] \<and> (\<forall>x\<in>set (fst pd). valid_name x)"
proof (induction n arbitrary: ds)
  case (File c)
  show ?case by simp
next
  case (Dir es)
  have ok: "\<forall>e\<in>set es. valid_name (fst e) \<and> wf_node (snd e)" using Dir.prems(1) by simp
  show ?case
  proof
    fix pd assume "pd \<in> set (walk_files w ds (Dir es))"
    then consider (direct) e where "e \<in> set es" "pd = (ds @ [fst e], file_content (snd e))"
      | (below) e where "e \<in> set es" "pd \<in> set (walk_files w (ds @ [fst e]) (snd e))"
      by (auto simp: scandir_set)
    then show "fst pd \<noteq> [] \<and> (\<forall>x\<in>set (fst pd). valid_name x)"
    proof cases
      case direct
      then show ?thesis using ok Dir.prems(2) by auto
    next
      case below
      have 1: "snd e \<in> Basic_BNFs.snds e" by (cases e) simp
      have 2: "wf_node (snd e)" using ok below(1) by simp
      have 3: "\<forall>x\<in>set (ds @ [fst e]). valid_name x" using ok below(1) Dir.prems(2) by simp
      from Dir.IH [OF below(1) 1 2 3] below(2) show ?thesis by blast
    qed
  qed
qed

text \<open>The files that the walk visits are the files below the directory, each once.\<close>

lemma mset_concat_cong:
  "\<forall>x\<in>set xs. mset (f x) = mset (g x) \<Longrightarrow> mset (concat (map f xs)) = mset (concat (map g xs))"
  by (induction xs) simp_all

lemma mset_concat_perm:
  "mset xs = mset ys \<Longrightarrow> mset (concat (map f xs)) = mset (concat (map f ys))"
proof -
  assume a: "mset xs = mset ys"
  have "mset (concat (map f zs)) = sum_mset (image_mset (\<lambda>x. mset (f x)) (mset zs))" for zs
    by (induction zs) simp_all
  then show ?thesis using a by simp
qed

lemma walk_files_entries:
  "mset (walk_files w ds (Dir es))
     = mset (concat (map (\<lambda>e. case snd e of
                                 File c \<Rightarrow> [(ds @ [fst e], c)]
                               | Dir _ \<Rightarrow> walk_files w (ds @ [fst e]) (snd e)) es))"
proof -
  let ?F = "\<lambda>e. case snd e of File c \<Rightarrow> [(ds @ [fst e], c)]
                  | Dir _ \<Rightarrow> walk_files w (ds @ [fst e]) (snd e)"
  have "mset (map (\<lambda>e. (ds @ [fst e], file_content (snd e))) (filter (\<lambda>e. \<not> is_dir (snd e)) xs))
          + mset (concat (map (\<lambda>e. walk_files w (ds @ [fst e]) (snd e)) xs))
        = mset (concat (map ?F xs))" for xs
  proof (induction xs)
    case Nil
    show ?case by simp
  next
    case (Cons x xs)
    then show ?case by (cases "snd x") (simp_all add: ac_simps)
  qed
  then have "mset (walk_files w ds (Dir es)) = mset (concat (map ?F (scandir w es)))" by simp
  also have "\<dots> = mset (concat (map ?F es))"
    using scandir_mset by (rule mset_concat_perm)
  finally show ?thesis .
qed

lemma walk_files_mset_node:
  "mset (walk_files w ds n)
     = (if is_dir n then mset (map (\<lambda>pd. (ds @ fst pd, snd pd)) (files_of n)) else {#})"
proof (induction n arbitrary: ds)
  case (File c)
  show ?case by simp
next
  case (Dir es)
  let ?F = "\<lambda>e. case snd e of File c \<Rightarrow> [(ds @ [fst e], c)]
                  | Dir _ \<Rightarrow> walk_files w (ds @ [fst e]) (snd e)"
  let ?G = "\<lambda>e. map (\<lambda>pd. (ds @ fst pd, snd pd))
                 (map (\<lambda>pd. (fst e # fst pd, snd pd)) (files_of (snd e)))"
  have each: "mset (?G e) = mset (?F e)" if "e \<in> set es" for e
  proof (cases "snd e")
    case (File c)
    then show ?thesis by simp
  next
    case d: (Dir es')
    have "snd e \<in> Basic_BNFs.snds e" by (cases e) simp
    from Dir.IH [OF that this, of "ds @ [fst e]"]
    have "mset (walk_files w (ds @ [fst e]) (snd e))
            = mset (map (\<lambda>pd. ((ds @ [fst e]) @ fst pd, snd pd)) (files_of (snd e)))"
      using d by simp
    then show ?thesis using d by (simp add: comp_def)
  qed
  have g: "map (\<lambda>pd. (ds @ fst pd, snd pd)) (files_of (Dir es)) = concat (map ?G es)"
    by (simp add: map_concat comp_def)
  have "mset (concat (map ?G es)) = mset (concat (map ?F es))"
    by (rule mset_concat_cong) (intro ballI each)
  then have "mset (map (\<lambda>pd. (ds @ fst pd, snd pd)) (files_of (Dir es))) = mset (concat (map ?F es))"
    unfolding g .
  moreover have "mset (walk_files w ds (Dir es)) = mset (concat (map ?F es))"
    by (rule walk_files_entries)
  ultimately show ?case by simp
qed

lemma walk_files_mset:
  "is_dir n \<Longrightarrow> mset (walk_files w [] n) = mset (files_of n)"
  using walk_files_mset_node [of w "[]" n] by simp

subsection \<open>The temporary archive inside the tree\<close>

lemma lookup_files_of: "lookup n r = Some (File c) \<Longrightarrow> (r, c) \<in> set (files_of n)"
proof (induction n r rule: lookup.induct)
  case (1 n)
  then show ?case by simp
next
  case (2 uu c' cs)
  then show ?case by simp
next
  case (3 es c' cs)
  then obtain m where m: "map_of es c' = Some m" and l: "lookup m cs = Some (File c)"
    by (auto split: option.splits)
  have e: "(c', m) \<in> set es" using m by (rule map_of_SomeD)
  from 3(1) [OF m l] have "(cs, c) \<in> set (files_of m)" .
  then have "(c' # cs, c) \<in> (\<lambda>pd. (c' # fst pd, snd pd)) ` set (files_of m)" by force
  with e show ?case by force
qed

lemma files_of_lookup:
  "wf_node n \<Longrightarrow> (r, c) \<in> set (files_of n) \<Longrightarrow> lookup n r = Some (File c)"
proof (induction n arbitrary: r)
  case (File d)
  then show ?case by simp
next
  case (Dir es)
  from Dir.prems(2) obtain e r' where e: "e \<in> set es" and r: "r = fst e # r'"
    and m: "(r', c) \<in> set (files_of (snd e))" by auto
  have dist: "distinct (map fst es)" and ok: "wf_node (snd e)" using Dir.prems(1) e by simp_all
  have mp: "map_of es (fst e) = Some (snd e)" using dist e by simp
  have "snd e \<in> Basic_BNFs.snds e" by (cases e) simp
  from Dir.IH [OF e this ok m] show ?case using mp r by simp
qed

lemma write_node_below:
  "write_node t (p @ q) d = Inr t' \<Longrightarrow> lookup t p = Some n \<Longrightarrow>
   \<exists>n'. write_node n q d = Inr n' \<and> lookup t' p = Some n'"
proof (induction t p arbitrary: t' rule: lookup.induct)
  case (1 n0)
  then show ?case by simp
next
  case (2 uu c cs)
  then show ?case by simp
next
  case (3 es c cs)
  from 3(3) obtain m where m: "map_of es c = Some m" and l: "lookup m cs = Some n"
    by (auto split: option.splits)
  from 3(2) m obtain m' where w: "write_node m (cs @ q) d = Inr m'"
    and t': "t' = Dir (AList.update c m' es)"
    by (auto split: sum.splits)
  from 3(1) [OF m w l] obtain n' where "write_node n q d = Inr n'" "lookup m' cs = Some n'"
    by blast
  then show ?case using t' by (simp add: AList.update_conv')
qed

lemma write_node_keeps_files:
  assumes "write_node t q d = Inr t'" and "lookup t p = Some (File c)"
  shows "\<exists>c'. lookup t' p = Some (File c')"
proof (cases "prefix p q")
  case False
  from lookup_write_node_other [OF assms(1) False] assms(2) show ?thesis by simp
next
  case True
  then obtain r where q: "q = p @ r" by (auto simp: prefix_def)
  from write_node_below [OF assms(1) [unfolded q] assms(2)]
  obtain n' where "write_node (File c) r d = Inr n'" by blast
  then have "r = []" by (cases r) simp_all
  with q have "q = p" by simp
  with lookup_write_node_same [OF assms(1)] show ?thesis by simp
qed

lemma write_node_is_dir: "write_node (Dir es) q d = Inr n \<Longrightarrow> is_dir n"
  by (cases q) (auto split: option.splits sum.splits if_splits)


lemma list_all2_map_eq:
  "list_all2 (\<lambda>x y. f x = g y) xs ys \<Longrightarrow> map f xs = map g ys"
  by (induction rule: list_all2_induct) auto

subsection \<open>The archive of a successful \<open>compress\<close>\<close>

text \<open>What a successful \<open>compress\<close> leaves at the archive path.\<close>

lemma compress_members:
  assumes wf: "wf_world w" and d: "dirs self = Some d"
    and c: "compress self p w = (Inr out, self', w')"
  obtains w1 ms where
    "write_file w (snd (archive_paths (epub self) p)) (Archive []) = Inr w1"
    "lookup (root w') (locate w out) = Some (File (Archive ms))"
    "list_all2 (is_member (if prefix (locate w (basedir d))
                                 (locate w (snd (archive_paths (epub self) p)))
                           then drop (length (locate w (basedir d)))
                                  (locate w (snd (archive_paths (epub self) p)))
                           else []) ZIP_DEFLATED) ms
       (if basedir d = [] then []
        else case lookup (root w1) (locate w (basedir d)) of
               None \<Rightarrow> [] | Some n \<Rightarrow> walk_files w [] n)"
proof -
  obtain fpath fzip where ap: "archive_paths (epub self) p = (fpath, fzip)"
    by (cases "archive_paths (epub self) p") auto
  from compress_destination [OF d ap c]
  obtain zipf w1 zipf' w2 where out: "out = fpath"
    and z: "ZipFile w fzip ZIP_DEFLATED = Inr (zipf, w1)"
    and cw: "compress_walk zipf w1 (basedir d) (os_walk w1 (basedir d)) = (Inr (), zipf')"
    and at: "lookup (root w') (locate w fpath) = Some (File (Archive (members zipf')))"
    by auto
  from ZipFile_Inr [OF z]
  have wf1: "write_file w fzip (Archive []) = Inr w1" and cz: "compression zipf = ZIP_DEFLATED"
    and mz: "members zipf = []" and fz: "filename zipf = fzip" by simp_all
  have cwd1: "cwd w1 = cwd w" using write_file_Inr [OF wf1] by simp
  have loc1: "locate w1 q = locate w q" for q using cwd1 by (rule locate_cwd)
  have ord: "listing_order w1 = listing_order w" using write_file_order [OF wf1] by simp
  have wfw1: "wf_world w1" using write_file_wf [OF wf wf1] .
  let ?own = "if prefix (locate w (basedir d)) (locate w fzip)
              then drop (length (locate w (basedir d))) (locate w fzip) else []"
  let ?L = "if basedir d = [] then []
            else case lookup (root w1) (locate w (basedir d)) of
                   None \<Rightarrow> [] | Some n \<Rightarrow> walk_files w [] n"
  have all': "list_all2 (is_member ?own ZIP_DEFLATED) (members zipf') ?L"
  proof (cases "basedir d = []")
    case True
    then have "os_walk w1 (basedir d) = []" by (simp add: os_walk_def resolve_def)
    with cw have "zipf' = zipf" by simp
    then show ?thesis using True mz by simp
  next
    case False
    show ?thesis
    proof (cases "lookup (root w1) (locate w (basedir d))")
      case None
      then have "os_walk w1 (basedir d) = []" using False loc1 by (simp add: os_walk_def resolve_def)
      with cw have "zipf' = zipf" by simp
      then show ?thesis using False None mz by simp
    next
      case (Some n)
      have wn: "wf_node n" using lookup_wf [OF _ Some] wfw1 by (simp add: wf_world_def)
      have l1: "lookup (root w1) (locate w1 (basedir d)) = Some n" using Some loc1 by simp
      from compress_walk_base [OF False wn l1 cw] obtain ms where
        zz: "zipf' = zipf\<lparr>members := members zipf @ ms\<rparr>"
        and all: "list_all2 (is_member (if prefix (locate w1 (basedir d)) (locate w1 (filename zipf))
                                        then drop (length (locate w1 (basedir d)))
                                               (locate w1 (filename zipf))
                                        else []) (compression zipf)) ms (walk_files w1 [] n)"
        by blast
      have wc: "walk_files w1 [] n = walk_files w [] n" using ord by (rule walk_files_cong)
      from all have "list_all2 (is_member ?own ZIP_DEFLATED) ms (walk_files w [] n)"
        unfolding loc1 fz cz wc .
      then show ?thesis using False Some mz zz by simp
    qed
  qed
  show ?thesis
  proof (rule that [of w1 "members zipf'"])
    show "write_file w (snd (archive_paths (epub self) p)) (Archive []) = Inr w1"
      using wf1 ap by simp
    show "lookup (root w') (locate w out) = Some (File (Archive (members zipf')))"
      using at out by simp
    show "list_all2 (is_member (if prefix (locate w (basedir d))
                                 (locate w (snd (archive_paths (epub self) p)))
                           then drop (length (locate w (basedir d)))
                                  (locate w (snd (archive_paths (epub self) p)))
                           else []) ZIP_DEFLATED) (members zipf')
       (if basedir d = [] then []
        else case lookup (root w1) (locate w (basedir d)) of
               None \<Rightarrow> [] | Some n \<Rightarrow> walk_files w [] n)"
      using all' by (simp only: ap snd_conv)
  qed
qed

lemma walked_files_valid:
  assumes "wf_world w1"
  shows "\<forall>pd\<in>set (if b = [] then []
            else case lookup (root w1) q of None \<Rightarrow> [] | Some n \<Rightarrow> walk_files w [] n).
           fst pd \<noteq> [] \<and> (\<forall>x\<in>set (fst pd). valid_name x)"
proof (cases "b = []")
  case True
  then show ?thesis by simp
next
  case False
  show ?thesis
  proof (cases "lookup (root w1) q")
    case None
    then show ?thesis by simp
  next
    case (Some n)
    have "wf_node n" using lookup_wf [OF _ Some] assms by (simp add: wf_world_def)
    from walk_files_paths [OF this, of "[]" w] show ?thesis using False Some by simp
  qed
qed




text \<open>
  The same build on a file system that lists the oldest entry first: the chapter's page is
  stored without compression there too, while the first member is the marker.
\<close>

lemma chapter_named_mimetype_oldest_first:
  "fst (run_calls ex_globals ex_calls_archive_inside (init ex_spec ex_factory ''u'')
          (ex_world\<lparr>listing_order := (\<lambda>es. es)\<rparr>))
     = [Inr (), Inr (), Inr ()]
   \<and> zip_getinfo (snd (snd (run_calls ex_globals ex_calls_archive_inside
                               (init ex_spec ex_factory ''u'')
                               (ex_world\<lparr>listing_order := (\<lambda>es. es)\<rparr>))))
        ''/tmp/t1/book.epub'' ''OEBPS/mimetype'' = Inr ZIP_STORED
   \<and> zip_first_name (snd (snd (run_calls ex_globals ex_calls_archive_inside
                                  (init ex_spec ex_factory ''u'')
                                  (ex_world\<lparr>listing_order := (\<lambda>es. es)\<rparr>))))
        ''/tmp/t1/book.epub'' = Inr ''mimetype''"
  by code_simp

text \<open>
  C5 (amended). In a well-formed file system, when the base path is a directory and
  \<open>compress\<close> returns:
  \<^item> if the temporary archive lies outside the base directory, the members of the archive
    are the regular files below the base directory as they are when \<open>compress\<close> is
    called: each file once, under its path relative to the base directory, with its
    content, and nothing else;
  \<^item> if it lies inside, the member names are the relative paths of the regular files
    below the base directory once the temporary archive has been created there, each
    once: the archive has a member for the temporary archive itself, besides one for
    every file that was there when \<open>compress\<close> was called.
\<close>

theorem compress_round_trip:
  assumes "wf_world w" and "dirs self = Some d"
    and "compress self p w = (Inr out, self', w')"
    and "basedir d \<noteq> []"
    and "lookup (root w) (locate w (basedir d)) = Some (Dir es)"
  shows "\<exists>ms. lookup (root w') (locate w out) = Some (File (Archive ms))
       \<and> (\<not> prefix (locate w (basedir d)) (locate w (snd (archive_paths (epub self) p))) \<longrightarrow>
            mset (map (\<lambda>m. (fst m, snd (snd m))) ms)
              = mset (map (\<lambda>pd. (str_join ''/'' (fst pd), snd pd)) (files_of (Dir es))))
       \<and> (prefix (locate w (basedir d)) (locate w (snd (archive_paths (epub self) p))) \<longrightarrow>
            (\<exists>n1. write_node (Dir es)
                     (drop (length (locate w (basedir d)))
                        (locate w (snd (archive_paths (epub self) p)))) (Archive []) = Inr n1
                 \<and> mset (map fst ms) = mset (map (\<lambda>pd. str_join ''/'' (fst pd)) (files_of n1)))
          \<and> str_join ''/'' (drop (length (locate w (basedir d)))
                               (locate w (snd (archive_paths (epub self) p)))) \<in> set (map fst ms)
          \<and> (\<forall>pd\<in>set (files_of (Dir es)). str_join ''/'' (fst pd) \<in> set (map fst ms)))"
proof -
  let ?P = "locate w (basedir d)"
  let ?qz = "locate w (snd (archive_paths (epub self) p))"
  let ?own = "if prefix ?P ?qz then drop (length ?P) ?qz else []"
  from assms(1-3) obtain w1 ms where
    wf1: "write_file w (snd (archive_paths (epub self) p)) (Archive []) = Inr w1"
    and at: "lookup (root w') (locate w out) = Some (File (Archive ms))"
    and all: "list_all2 (is_member ?own ZIP_DEFLATED) ms
       (if basedir d = [] then []
        else case lookup (root w1) ?P of None \<Rightarrow> [] | Some n \<Rightarrow> walk_files w [] n)"
    by (rule compress_members)
  let ?L = "if basedir d = [] then []
            else case lookup (root w1) ?P of None \<Rightarrow> [] | Some n \<Rightarrow> walk_files w [] n"
  have wfw1: "wf_world w1" using write_file_wf [OF assms(1) wf1] .
  have valid: "\<forall>pd\<in>set ?L. fst pd \<noteq> [] \<and> (\<forall>x\<in>set (fst pd). valid_name x)"
    using walked_files_valid [OF wfw1] .
  have "list_all2 (\<lambda>m pd. fst m = str_join ''/'' (fst pd)) ms ?L"
    using all by (rule list_all2_mono) (simp add: is_member_def)
  then have names: "map fst ms = map (\<lambda>pd. str_join ''/'' (fst pd)) ?L"
    by (rule list_all2_map_eq)
  have outside: "mset (map (\<lambda>m. (fst m, snd (snd m))) ms)
              = mset (map (\<lambda>pd. (str_join ''/'' (fst pd), snd pd)) (files_of (Dir es)))"
    if out: "\<not> prefix ?P ?qz"
  proof -
    have "lookup (root w1) ?P = Some (Dir es)"
      using write_file_lookup_other [OF wf1 out] assms(5) by simp
    then have L: "?L = walk_files w [] (Dir es)" using assms(4) by simp
    have "list_all2 (\<lambda>m pd. (fst m, snd (snd m)) = (str_join ''/'' (fst pd), snd pd)) ms ?L"
      using all
    proof (rule list.rel_mono_strong)
      fix m pd
      assume "pd \<in> set ?L" and m: "is_member ?own ZIP_DEFLATED m pd"
      with valid have "fst pd \<noteq> []" by blast
      then have "fst pd \<noteq> ?own" using out by simp
      with m show "(fst m, snd (snd m)) = (str_join ''/'' (fst pd), snd pd)"
        by (simp add: is_member_def)
    qed
    then have "map (\<lambda>m. (fst m, snd (snd m))) ms
                 = map (\<lambda>pd. (str_join ''/'' (fst pd), snd pd)) ?L"
      by (rule list_all2_map_eq)
    then have "mset (map (\<lambda>m. (fst m, snd (snd m))) ms)
                 = image_mset (\<lambda>pd. (str_join ''/'' (fst pd), snd pd))
                     (mset (walk_files w [] (Dir es)))"
      unfolding L by (simp only: mset_map)
    also have "\<dots> = image_mset (\<lambda>pd. (str_join ''/'' (fst pd), snd pd)) (mset (files_of (Dir es)))"
      by (simp only: walk_files_mset is_dir.simps)
    also have "\<dots> = mset (map (\<lambda>pd. (str_join ''/'' (fst pd), snd pd)) (files_of (Dir es)))"
      by (simp only: mset_map)
    finally show ?thesis .
  qed
  have inside: "(\<exists>n1. write_node (Dir es) (drop (length ?P) ?qz) (Archive []) = Inr n1
                 \<and> mset (map fst ms) = mset (map (\<lambda>pd. str_join ''/'' (fst pd)) (files_of n1)))
          \<and> str_join ''/'' (drop (length ?P) ?qz) \<in> set (map fst ms)
          \<and> (\<forall>pd\<in>set (files_of (Dir es)). str_join ''/'' (fst pd) \<in> set (map fst ms))"
    if ins: "prefix ?P ?qz"
  proof -
    let ?r = "drop (length ?P) ?qz"
    have q: "?qz = ?P @ ?r" using ins by (auto simp: prefix_def)
    have "write_node (root w) ?qz (Archive []) = Inr (root w1)"
      using write_file_Inr [OF wf1] by simp
    then have wn: "write_node (root w) (?P @ ?r) (Archive []) = Inr (root w1)"
      using q by simp
    from write_node_below [OF wn assms(5)] obtain n1 where
      n1: "write_node (Dir es) ?r (Archive []) = Inr n1"
      and l1: "lookup (root w1) ?P = Some n1" by blast
    have dir: "is_dir n1" using n1 by (rule write_node_is_dir)
    have L: "?L = walk_files w [] n1" using assms(4) l1 by simp
    have "mset (map fst ms) = image_mset (\<lambda>pd. str_join ''/'' (fst pd)) (mset (walk_files w [] n1))"
      unfolding names L by (simp only: mset_map)
    also have "\<dots> = image_mset (\<lambda>pd. str_join ''/'' (fst pd)) (mset (files_of n1))"
      by (simp only: walk_files_mset [OF dir])
    also have "\<dots> = mset (map (\<lambda>pd. str_join ''/'' (fst pd)) (files_of n1))"
      by (simp only: mset_map)
    finally have ex: "mset (map fst ms) = mset (map (\<lambda>pd. str_join ''/'' (fst pd)) (files_of n1))" .
    then have sets: "set (map fst ms) = set (map (\<lambda>pd. str_join ''/'' (fst pd)) (files_of n1))"
      by (rule mset_eq_setD)
    have name_in: "str_join ''/'' r \<in> set (map fst ms)" if "lookup n1 r = Some (File c)" for r c
    proof -
      from lookup_files_of [OF that] have "(r, c) \<in> set (files_of n1)" .
      then have "str_join ''/'' (fst (r, c)) \<in> (\<lambda>pd. str_join ''/'' (fst pd)) ` set (files_of n1)"
        by (rule imageI)
      then show ?thesis unfolding sets by simp
    qed
    have own_in: "str_join ''/'' ?r \<in> set (map fst ms)"
      using name_in [OF lookup_write_node_same [OF n1]] .
    have wfes: "wf_node (Dir es)"
      using lookup_wf [OF _ assms(5)] assms(1) by (simp add: wf_world_def)
    have olds: "\<forall>pd\<in>set (files_of (Dir es)). str_join ''/'' (fst pd) \<in> set (map fst ms)"
    proof
      fix pd assume "pd \<in> set (files_of (Dir es))"
      then have "(fst pd, snd pd) \<in> set (files_of (Dir es))" by simp
      from files_of_lookup [OF wfes this] have "lookup (Dir es) (fst pd) = Some (File (snd pd))" .
      from write_node_keeps_files [OF n1 this] obtain c' where
        "lookup n1 (fst pd) = Some (File c')" by blast
      then show "str_join ''/'' (fst pd) \<in> set (map fst ms)" by (rule name_in)
    qed
    from n1 ex own_in olds show ?thesis by blast
  qed
  from at outside inside show ?thesis by blast
qed

theorem compress_round_trip_witness:
  "wf_world (snd (snd ex_after_begin))
   \<and> dirs (fst (snd ex_after_begin)) = Some ex_dirs
   \<and> fst ex_compressed = Inr ''./T.epub''
   \<and> lookup (root (snd (snd ex_after_begin))) [''tmp'', ''t1''] = Some (Dir ex_layout_entries)
   \<and> (\<exists>ms. lookup (root (snd (snd ex_compressed))) [''out'', ''T.epub'']
                 = Some (File (Archive ms))
          \<and> mset (map (\<lambda>m. (fst m, snd (snd m))) ms)
              = mset (map (\<lambda>pd. (str_join ''/'' (fst pd), snd pd)) (files_of (Dir ex_layout_entries))))
   \<and> wf_world (snd (snd ex_here_begin))
   \<and> fst ex_here_compressed = Inr ''./T.epub''
   \<and> (\<exists>ms. lookup (root (snd (snd ex_here_compressed))) [''out'', ''T.epub'']
                 = Some (File (Archive ms))
          \<and> ''T.zip'' \<in> set (map fst ms) \<and> ''mimetype'' \<in> set (map fst ms))"
proof -
  let ?self = "fst (snd ex_after_begin)" and ?w = "snd (snd ex_after_begin)"
  have h1: "wf_world ?w" unfolding ex_after_begin_def by code_simp
  have h2: "dirs ?self = Some ex_dirs" unfolding ex_after_begin_def by code_simp
  have r: "fst ex_compressed = Inr ''./T.epub''"
    unfolding ex_compressed_def ex_after_begin_def by code_simp
  have h3: "compress ?self None ?w = (Inr ''./T.epub'', fst (snd ex_compressed), snd (snd ex_compressed))"
    unfolding r [symmetric] by (simp add: ex_compressed_def)
  have h4: "basedir ex_dirs \<noteq> []" by (simp add: ex_dirs_def)
  have lb: "locate ?w (basedir ex_dirs) = [''tmp'', ''t1'']"
    unfolding ex_after_begin_def by code_simp
  have tree: "lookup (root ?w) [''tmp'', ''t1''] = Some (Dir ex_layout_entries)"
    unfolding ex_after_begin_def by code_simp
  have h5: "lookup (root ?w) (locate ?w (basedir ex_dirs)) = Some (Dir ex_layout_entries)"
    unfolding lb by (rule tree)
  have l: "locate ?w ''./T.epub'' = [''out'', ''T.epub'']"
    unfolding ex_after_begin_def by code_simp
  have h6: "\<not> prefix (locate ?w (basedir ex_dirs))
                    (locate ?w (snd (archive_paths (epub ?self) None)))"
    unfolding ex_after_begin_def by code_simp
  from compress_round_trip [OF h1 h2 h3 h4 h5] h6
  have a: "\<exists>ms. lookup (root (snd (snd ex_compressed))) [''out'', ''T.epub'']
                 = Some (File (Archive ms))
          \<and> mset (map (\<lambda>m. (fst m, snd (snd m))) ms)
              = mset (map (\<lambda>pd. (str_join ''/'' (fst pd), snd pd)) (files_of (Dir ex_layout_entries)))"
    unfolding l by blast
  let ?s = "fst (snd ex_here_begin)" and ?v = "snd (snd ex_here_begin)"
  let ?d = "\<lparr>basedir = ''.'', oebps = ''./OEBPS'', metainf = ''./META-INF'',
             images = ''./OEBPS/images'', styles = ''./OEBPS/styles''\<rparr>"
  have g1: "wf_world ?v" unfolding ex_here_begin_def by code_simp
  have g2: "dirs ?s = Some ?d" unfolding ex_here_begin_def by code_simp
  have r': "fst ex_here_compressed = Inr ''./T.epub''"
    unfolding ex_here_compressed_def ex_here_begin_def by code_simp
  have g3: "compress ?s None ?v
              = (Inr ''./T.epub'', fst (snd ex_here_compressed), snd (snd ex_here_compressed))"
    unfolding r' [symmetric] by (simp add: ex_here_compressed_def)
  have g4: "basedir ?d \<noteq> []" by simp
  have g5: "lookup (root ?v) (locate ?v (basedir ?d)) = Some (Dir ex_layout_entries)"
    unfolding ex_here_begin_def by code_simp
  have l': "locate ?v ''./T.epub'' = [''out'', ''T.epub'']"
    unfolding ex_here_begin_def by code_simp
  have g6: "prefix (locate ?v (basedir ?d)) (locate ?v (snd (archive_paths (epub ?s) None)))"
    unfolding ex_here_begin_def by code_simp
  have own: "str_join ''/'' (drop (length (locate ?v (basedir ?d)))
                               (locate ?v (snd (archive_paths (epub ?s) None)))) = ''T.zip''"
    unfolding ex_here_begin_def by code_simp
  have old: "([''mimetype''], Data ''m'') \<in> set (files_of (Dir ex_layout_entries))"
    by code_simp
  from compress_round_trip [OF g1 g2 g3 g4 g5] g6
  obtain ms where m1: "lookup (root (snd (snd ex_here_compressed))) (locate ?v ''./T.epub'')
                         = Some (File (Archive ms))"
    and m2: "str_join ''/'' (drop (length (locate ?v (basedir ?d)))
                               (locate ?v (snd (archive_paths (epub ?s) None)))) \<in> set (map fst ms)"
    and m3: "\<forall>pd\<in>set (files_of (Dir ex_layout_entries)). str_join ''/'' (fst pd) \<in> set (map fst ms)"
    by blast
  from m3 old have "str_join ''/'' (fst ([''mimetype''], Data ''m'')) \<in> set (map fst ms)"
    by (rule bspec)
  then have m4: "''mimetype'' \<in> set (map fst ms)" by simp
  have b: "\<exists>ms. lookup (root (snd (snd ex_here_compressed))) [''out'', ''T.epub'']
                 = Some (File (Archive ms))
          \<and> ''T.zip'' \<in> set (map fst ms) \<and> ''mimetype'' \<in> set (map fst ms)"
    using m1 m2 m4 unfolding l' own by blast
  show ?thesis by (intro conjI h1 h2 r tree a g1 r' b)
qed

text \<open>
  C5 as stated fails when the archive is written inside the base directory, as for
  a build in the current directory (\<open>epub_dir='.'\<close>) with the default destination: the
  temporary archive \<open>T.zip\<close> is created there before the walk, so the archive has a
  member \<open>T.zip\<close> although no such file existed when \<open>compress\<close> was called
  (a fact about the member of that name, wherever it stands in the archive).
\<close>

theorem compress_round_trip_counterexample:
  "fst (run_calls ex_globals [Begin] (init ex_spec_here ex_factory ''u'') ex_world) = [Inr ()]
   \<and> os_path_exists (snd (snd (run_calls ex_globals [Begin]
                (init ex_spec_here ex_factory ''u'') ex_world))) ''./T.zip'' = False
   \<and> fst (run_calls ex_globals [Begin, Compress None]
            (init ex_spec_here ex_factory ''u'') ex_world) = [Inr (), Inr ()]
   \<and> zip_getinfo (snd (snd (run_calls ex_globals [Begin, Compress None]
                (init ex_spec_here ex_factory ''u'') ex_world))) ''T.epub'' ''T.zip''
     = Inr ZIP_DEFLATED"
  by code_simp

text \<open>
  The same build on a file system that lists the oldest entry first has the member too.
\<close>

lemma temporary_archive_member_oldest_first:
  "fst (run_calls ex_globals [Begin, Compress None] (init ex_spec_here ex_factory ''u'')
          (ex_world\<lparr>listing_order := (\<lambda>es. es)\<rparr>)) = [Inr (), Inr ()]
   \<and> zip_getinfo (snd (snd (run_calls ex_globals [Begin, Compress None]
                (init ex_spec_here ex_factory ''u'')
                (ex_world\<lparr>listing_order := (\<lambda>es. es)\<rparr>)))) ''T.epub'' ''T.zip''
     = Inr ZIP_DEFLATED"
  by code_simp

text \<open>
  The copy of an archive into itself need not end by itself: in the same build on a
  file system where it does not, \<open>compress\<close> raises \<open>OSError\<close>.
\<close>

lemma compress_unending_self_copy:
  "fst (run_calls ex_globals [Begin, Compress None] (init ex_spec_here ex_factory ''u'')
          (ex_world\<lparr>self_copy := (\<lambda>ms. None)\<rparr>)) = [Inr (), Inl OSError]"
  by code_simp

end
